theory Spec2Isabelle
  imports Complex_Main "HOL-Library.Log_Nat"
begin

section \<open>Numbers: rounding to IEEE 754 double precision\<close>

text \<open>
  A JavaScript number is an IEEE 754 binary64 value, and \<open>+\<close>, \<open>*\<close> and \<open>/\<close> return
  the exact result rounded to the nearest such value, a tie going to the one whose
  significand is even. A finite double is a rational number, so the byte arithmetic of
  the color scaling and of the spectrum display is written over the reals with the
  rounding \<open>fl\<close> applied after every operation. \<open>fl\<close> keeps 53 significant bits and
  has no bound on the exponent: overflow to an infinity and gradual underflow are not
  modelled.

  Rounding to the nearest integer, a tie going to the even one.
\<close>

definition round_half_even :: "real \<Rightarrow> int" where
  "round_half_even x =
     (let f = \<lfloor>x\<rfloor>; r = x - of_int f
      in if r < 1 / 2 then f else if 1 / 2 < r then f + 1
         else if even f then f else f + 1)"

text \<open>
  The binary exponent \<open>e\<close> of a positive number \<open>x\<close>, with \<open>2^e \<le> x < 2^(e+1)\<close>:
  found by halving a number from 2 upwards and by doubling a number below 1.
\<close>

function exp_hi :: "real \<Rightarrow> int" where
  "exp_hi x = (if 2 \<le> x then exp_hi (x / 2) + 1 else 0)"
  by pat_completeness auto
termination
proof (relation "measure (\<lambda>x. nat \<lfloor>x\<rfloor>)")
  show "wf (measure (\<lambda>x::real. nat \<lfloor>x\<rfloor>))" by simp
next
  fix x :: real assume x: "2 \<le> x"
  have "\<lfloor>x / 2\<rfloor> = \<lfloor>x\<rfloor> div 2"
    using floor_divide_real_eq_div[of 2 x] by simp
  moreover have "2 \<le> \<lfloor>x\<rfloor>" using x by (simp add: le_floor_iff)
  then have "\<lfloor>x\<rfloor> div 2 < \<lfloor>x\<rfloor>" "0 < \<lfloor>x\<rfloor>" by presburger+
  ultimately have "nat \<lfloor>x / 2\<rfloor> < nat \<lfloor>x\<rfloor>" by linarith
  then show "(x / 2, x) \<in> measure (\<lambda>x. nat \<lfloor>x\<rfloor>)" by simp
qed

function exp_lo :: "real \<Rightarrow> int" where
  "exp_lo x = (if 0 < x \<and> x < 1 then exp_lo (2 * x) - 1 else 0)"
  by pat_completeness auto
termination
proof (relation "measure (\<lambda>x. nat \<lceil>1 / x\<rceil>)")
  show "wf (measure (\<lambda>x::real. nat \<lceil>1 / x\<rceil>))" by simp
next
  fix x :: real assume x: "0 < x \<and> x < 1"
  define n where "n = \<lceil>1 / x\<rceil>"
  have t: "1 < 1 / x" using x by simp
  then have n2: "2 \<le> n" unfolding n_def by (simp add: le_ceiling_iff)
  have "1 / x \<le> of_int n" unfolding n_def by (rule le_of_int_ceiling)
  then have "1 / (2 * x) \<le> of_int n / 2" by simp
  also have "\<dots> \<le> of_int (n - 1)" using n2 by simp
  finally have "\<lceil>1 / (2 * x)\<rceil> \<le> n - 1" by (rule ceiling_le)
  then have "nat \<lceil>1 / (2 * x)\<rceil> < nat \<lceil>1 / x\<rceil>"
    using n2 unfolding n_def by linarith
  then show "(2 * x, x) \<in> measure (\<lambda>x. nat \<lceil>1 / x\<rceil>)"
    by simp
qed

declare exp_hi.simps [simp del] exp_lo.simps [simp del]

definition exponent :: "real \<Rightarrow> int" where
  "exponent x = (if 1 \<le> x then exp_hi x else exp_lo x)"

text \<open>
  The double nearest to \<open>x\<close>: the significand \<open>|x| / 2^(e-52)\<close>, which lies between
  \<open>2^52\<close> and \<open>2^53\<close>, is rounded to an integer.
\<close>

definition fl :: "real \<Rightarrow> real" where
  "fl x = (if x = 0 then 0
           else (let u = 2 powi (exponent \<bar>x\<bar> - 52)
                 in sgn x * of_int (round_half_even (\<bar>x\<bar> / u)) * u))"


section \<open>Raster data and the canvas collaborator\<close>

text \<open>
  An \<open>ImageData\<close> object: extents and a row-major RGBA byte buffer
  (\<open>Uint8ClampedArray\<close>). Bytes are kept as integers so that a clamping
  bound is a statement and not a typing fact. A canvas bitmap is modelled by the same
  record: its extents and the RGBA content of its backing store.
\<close>

record image_data =
  width :: nat
  height :: nat
  data :: "int list"

type_synonym canvas = image_data

definition wf_image :: "image_data \<Rightarrow> bool" where
  "wf_image im \<longleftrightarrow> length (data im) = 4 * (width im * height im)"

text \<open>A store into a \<open>Uint8ClampedArray\<close> of an integral number clamps it to 0..255.\<close>

definition to_uint8_clamped :: "int \<Rightarrow> int" where
  "to_uint8_clamped v = (if v < 0 then 0 else if 255 < v then 255 else v)"

text \<open>
  The canvas 2D context as the editor uses it. \<open>getImageData\<close> reads a
  rectangle, with transparent black for every pixel outside the bitmap;
  \<open>putImageData\<close> at the origin overwrites the part of the bitmap the image
  covers; assigning \<open>canvas.width\<close> or \<open>canvas.height\<close> resets the bitmap to
  transparent black at the new extent.
\<close>

definition pixel_at :: "image_data \<Rightarrow> int \<Rightarrow> int \<Rightarrow> int list" where
  "pixel_at c px py =
     (if 0 \<le> px \<and> px < int (width c) \<and> 0 \<le> py \<and> py < int (height c)
      then (let off = 4 * (nat py * width c + nat px)
            in [data c ! off, data c ! (off + 1), data c ! (off + 2), data c ! (off + 3)])
      else [0, 0, 0, 0])"

definition pixels :: "nat \<Rightarrow> nat \<Rightarrow> (nat \<Rightarrow> nat \<Rightarrow> int list) \<Rightarrow> int list" where
  "pixels w h f = concat (map (\<lambda>j. concat (map (\<lambda>i. f i j) [0..<w])) [0..<h])"

definition getImageData :: "canvas \<Rightarrow> int \<Rightarrow> int \<Rightarrow> nat \<Rightarrow> nat \<Rightarrow> image_data" where
  "getImageData c sx sy sw sh =
     \<lparr>width = sw, height = sh,
      data = pixels sw sh (\<lambda>i j. pixel_at c (sx + int i) (sy + int j))\<rparr>"

definition putImageData :: "canvas \<Rightarrow> image_data \<Rightarrow> canvas" where
  "putImageData c im =
     c\<lparr>data := pixels (width c) (height c)
          (\<lambda>i j. if i < width im \<and> j < height im
                 then pixel_at im (int i) (int j) else pixel_at c (int i) (int j))\<rparr>"

definition set_canvas_width :: "canvas \<Rightarrow> nat \<Rightarrow> canvas" where
  "set_canvas_width c w = c\<lparr>width := w, data := replicate (4 * (w * height c)) 0\<rparr>"

definition set_canvas_height :: "canvas \<Rightarrow> nat \<Rightarrow> canvas" where
  "set_canvas_height c h = c\<lparr>height := h, data := replicate (4 * (width c * h)) 0\<rparr>"

section \<open>CropTool\<close>

record point =
  pos_x :: int
  pos_y :: int

record crop_rect =
  rect_x :: int
  rect_y :: int
  rect_width :: int
  rect_height :: int

record crop_tool =
  canvas :: canvas
  bgCanvas :: canvas
  isCropping :: bool
  cropStart :: "point option"
  cropEnd :: "point option"

text \<open>\<open>isValidCropArea\<close>: both endpoints present and more than 5 pixels apart on each axis.\<close>

definition isValidCropArea :: "crop_tool \<Rightarrow> bool" where
  "isValidCropArea s =
     (case cropStart s of
        None \<Rightarrow> False
      | Some a \<Rightarrow>
          (case cropEnd s of
             None \<Rightarrow> False
           | Some b \<Rightarrow> \<bar>pos_x b - pos_x a\<bar> > 5 \<and> \<bar>pos_y b - pos_y a\<bar> > 5))"

text \<open>\<open>getCropDimensions\<close>: \<open>null\<close> (here \<open>None\<close>) without a valid area.\<close>

definition getCropDimensions :: "crop_tool \<Rightarrow> crop_rect option" where
  "getCropDimensions s =
     (if \<not> isValidCropArea s then None
      else (case (cropStart s, cropEnd s) of
              (Some a, Some b) \<Rightarrow>
                Some \<lparr>rect_x = min (pos_x a) (pos_x b),
                      rect_y = min (pos_y a) (pos_y b),
                      rect_width = \<bar>pos_x b - pos_x a\<bar>,
                      rect_height = \<bar>pos_y b - pos_y a\<bar>\<rparr>
            | _ \<Rightarrow> None))"

datatype crop_error = NoCropArea | CropTooSmall | NullDimensions

text \<open>
  \<open>applyCrop\<close> returns the tool's state after the call together with either the
  error thrown (\<open>NoCropArea\<close>: 'Please select a crop area first.', \<open>CropTooSmall\<close>:
  'Crop area is too small.') or the image data returned. \<open>NullDimensions\<close> stands for
  the TypeError of destructuring \<open>null\<close>.
\<close>

definition applyCrop :: "crop_tool \<Rightarrow> crop_tool \<times> (crop_error + image_data)" where
  "applyCrop s =
     (if \<not> isValidCropArea s then (s, Inl NoCropArea)
      else (case getCropDimensions s of
              None \<Rightarrow> (s, Inl NullDimensions)
            | Some d \<Rightarrow>
                if rect_width d < 10 \<or> rect_height d < 10 then (s, Inl CropTooSmall)
                else
                  (let w = nat (rect_width d); h = nat (rect_height d);
                       croppedData = getImageData (bgCanvas s) (rect_x d) (rect_y d) w h;
                       bg1 = set_canvas_height (set_canvas_width (bgCanvas s) w) h;
                       cv1 = set_canvas_height (set_canvas_width (canvas s) w) h;
                       bg2 = putImageData bg1 croppedData;
                       s' = s\<lparr>canvas := cv1, bgCanvas := bg2,
                              cropStart := None, cropEnd := None\<rparr>
                   in (s', Inr (getImageData bg2 0 0 (width bg2) (height bg2))))))"

section \<open>ColorAdjustments\<close>

record adjustments =
  red :: int
  green :: int
  blue :: int

text \<open>
  \<open>Math.round\<close> of a finite number: the nearest integer, a tie going up. The result
  is exact.
\<close>

definition js_round :: "real \<Rightarrow> int" where
  "js_round q = \<lfloor>q + 1 / 2\<rfloor>"

text \<open>
  The value one channel assignment of the scaling loop stores: the byte times the
  scale factor, the product rounded to a double, then \<open>Math.round\<close>, \<open>Math.max\<close>
  and \<open>Math.min\<close>.
\<close>

definition scale_channel :: "int \<Rightarrow> real \<Rightarrow> int" where
  "scale_channel v scale =
     to_uint8_clamped (min 255 (max 0 (js_round (fl (of_int v * scale)))))"

text \<open>
  The scaling loop, \<open>for (let i = 0; i < data.length; i += 4)\<close>. A store past the
  end of a typed array is dropped, as a list update past the end is.
\<close>

function scale_loop :: "real \<Rightarrow> real \<Rightarrow> real \<Rightarrow> nat \<Rightarrow> int list \<Rightarrow> int list" where
  "scale_loop rScale gScale bScale i d =
     (if i < length d
      then (let d1 = d[i := scale_channel (d ! i) rScale];
                d2 = d1[i + 1 := scale_channel (d1 ! (i + 1)) gScale];
                d3 = d2[i + 2 := scale_channel (d2 ! (i + 2)) bScale]
            in scale_loop rScale gScale bScale (i + 4) d3)
      else d)"
  by pat_completeness auto
termination
  by (relation "measure (\<lambda>(r, g, b, i, d). length d - i)") auto

declare scale_loop.simps [simp del]

text \<open>
  The adjusted copy (\<open>adjustedData\<close>) that the loop leaves. The adjustments are the
  integers that \<open>parseInt\<close> read from the sliders, and each scale factor is the
  quotient \<open>red / 100\<close> rounded to a double.
\<close>

definition adjusted_copy :: "adjustments \<Rightarrow> image_data \<Rightarrow> image_data" where
  "adjusted_copy adj original =
     (let rScale = fl (of_int (red adj) / 100);
          gScale = fl (of_int (green adj) / 100);
          bScale = fl (of_int (blue adj) / 100)
      in \<lparr>width = width original, height = height original,
          data = scale_loop rScale gScale bScale 0 (data original)\<rparr>)"

text \<open>
  \<open>ColorAdjustments.applyToImageData\<close>: the canvas after the call and the image
  data read back from it.
\<close>

definition applyToImageData :: "adjustments \<Rightarrow> image_data \<Rightarrow> canvas \<Rightarrow> canvas \<times> image_data" where
  "applyToImageData adj originalImageData bg =
     (let adjustedData = adjusted_copy adj originalImageData;
          bg' = putImageData bg adjustedData
      in (bg', getImageData bg' 0 0 (width adjustedData) (height adjustedData)))"

text \<open>The scale factor that applies at byte offset \<open>k\<close> of an RGBA buffer.\<close>

definition channel_scale :: "real \<Rightarrow> real \<Rightarrow> real \<Rightarrow> nat \<Rightarrow> real" where
  "channel_scale r g b k = (if k mod 4 = 0 then r else if k mod 4 = 1 then g else b)"


section \<open>Sample inputs\<close>

text \<open>Exchanging the two drag endpoints of the crop tool.\<close>

definition swap_endpoints :: "crop_tool \<Rightarrow> crop_tool" where
  "swap_endpoints s = s\<lparr>cropStart := cropEnd s, cropEnd := cropStart s\<rparr>"

text \<open>A one-pixel canvas and a crop tool on it after a drag between two points.\<close>

definition canvas1 :: canvas where
  "canvas1 = \<lparr>width = 1, height = 1, data = [0, 0, 0, 255]\<rparr>"

definition drag :: "int \<Rightarrow> int \<Rightarrow> int \<Rightarrow> int \<Rightarrow> crop_tool" where
  "drag x0 y0 x1 y1 =
     \<lparr>canvas = canvas1, bgCanvas = canvas1, isCropping = False,
      cropStart = Some \<lparr>pos_x = x0, pos_y = y0\<rparr>, cropEnd = Some \<lparr>pos_x = x1, pos_y = y1\<rparr>\<rparr>"

text \<open>A background canvas holding a 2-by-2 all-white opaque image.\<close>

definition white2x2 :: canvas where
  "white2x2 = \<lparr>width = 2, height = 2,
      data = [255, 255, 255, 255, 255, 255, 255, 255, 255, 255, 255, 255, 255, 255, 255, 255]\<rparr>"

section \<open>FFTAnalyzer: the visualization buffer\<close>

text \<open>
  \<open>Math.log\<close>. ECMAScript leaves its accuracy to the implementation and fixes
  \<open>Math.log(1) = +0\<close>. The development is therefore stated for every function that
  returns 0 at 1, is positive at 2 and is non-decreasing from 1 upwards; nothing else
  is used of the logarithm, and its values need not be the correctly rounded ones.
\<close>

typedef math_log =
  "{f :: real \<Rightarrow> real. f 1 = 0 \<and> 0 < f 2 \<and> (\<forall>x y. 1 \<le> x \<and> x \<le> y \<longrightarrow> f x \<le> f y)}"
  morphisms Math_log Abs_math_log
proof
  show "ln \<in> {f :: real \<Rightarrow> real. f 1 = 0 \<and> 0 < f 2
                  \<and> (\<forall>x y. 1 \<le> x \<and> x \<le> y \<longrightarrow> f x \<le> f y)}"
    by simp
qed

text \<open>
  The magnitudes are the numbers held in the \<open>Float32Array\<close> that \<open>computeFFT\<close>
  filled; here they are any real numbers.

  The byte that \<open>FFTAnalyzer.visualizeFFT\<close> stores for a source magnitude:
  \<open>Math.floor((logMag / maxLogMag) * 255)\<close> with \<open>logMag = Math.log(1 + mag)\<close>,
  every sum, quotient and product rounded to a double, clamped by the store into the
  \<open>Uint8ClampedArray\<close>. With \<open>maxLogMag = 0\<close> the quotient is \<open>NaN\<close> or an
  infinity, stored as 0 or 255.
\<close>

definition intensity :: "math_log \<Rightarrow> real \<Rightarrow> real \<Rightarrow> int" where
  "intensity L mag maxMag =
     (let logMag = Math_log L (fl (1 + mag)); maxLogMag = Math_log L (fl (1 + maxMag))
      in if maxLogMag = 0 then (if 0 < logMag then 255 else 0)
         else to_uint8_clamped \<lfloor>fl (fl (logMag / maxLogMag) * 255)\<rfloor>)"

text \<open>The spectrum index read for the destination pixel \<open>(x, y)\<close>.\<close>

definition shifted_index :: "nat \<Rightarrow> nat \<Rightarrow> nat \<Rightarrow> nat \<Rightarrow> nat" where
  "shifted_index W H x y =
     (let shiftedX = (x + W div 2) mod W;
          shiftedY = (y + H div 2) mod H
      in shiftedY * W + shiftedX)"

text \<open>The body of the inner loop: the four stores for the destination pixel.\<close>

definition put_pixel :: "math_log \<Rightarrow> real list \<Rightarrow> nat \<Rightarrow> nat \<Rightarrow> real \<Rightarrow> nat \<Rightarrow> nat \<Rightarrow> int list \<Rightarrow> int list" where
  "put_pixel L magnitude W H maxMag y x d =
     (let i = shifted_index W H x y;
          originalI = y * W + x;
          v = intensity L (magnitude ! i) maxMag
      in d[originalI * 4 := v, originalI * 4 + 1 := v, originalI * 4 + 2 := v,
           originalI * 4 + 3 := 255])"

definition vis_row :: "math_log \<Rightarrow> real list \<Rightarrow> nat \<Rightarrow> nat \<Rightarrow> real \<Rightarrow> nat \<Rightarrow> int list \<Rightarrow> int list" where
  "vis_row L magnitude W H maxMag y d = fold (put_pixel L magnitude W H maxMag y) [0..<W] d"

text \<open>
  \<open>FFTAnalyzer.visualizeFFT\<close>: the image data drawn on the spectrum canvas, starting
  from the all-zero buffer of \<open>createImageData\<close>.
\<close>

definition visualizeFFT :: "math_log \<Rightarrow> real list \<Rightarrow> nat \<Rightarrow> nat \<Rightarrow> real \<Rightarrow> image_data" where
  "visualizeFFT L magnitude W H maxMag =
     \<lparr>width = W, height = H,
      data = fold (vis_row L magnitude W H maxMag) [0..<H] (replicate (4 * (W * H)) 0)\<rparr>"

section \<open>PhotoEditor: the visualization buffer of the single-file editor\<close>

text \<open>\<open>a % b\<close> on non-negative numbers.\<close>

definition js_rem :: "rat \<Rightarrow> rat \<Rightarrow> rat" where
  "js_rem a b = a - b * of_int \<lfloor>a / b\<rfloor>"

text \<open>
  Here the half extents are not floored: \<open>(x + width / 2) % width\<close>. The index is a
  number that need not be integral.
\<close>

definition pe_shifted_index :: "nat \<Rightarrow> nat \<Rightarrow> nat \<Rightarrow> nat \<Rightarrow> rat" where
  "pe_shifted_index W H x y =
     (let shiftedX = js_rem (of_nat x + of_nat W / 2) (of_nat W);
          shiftedY = js_rem (of_nat y + of_nat H / 2) (of_nat H)
      in shiftedY * of_nat W + shiftedX)"

text \<open>
  Reading a typed array at a number: the element when the number is an index of the
  array, \<open>undefined\<close> (here \<open>None\<close>) otherwise.
\<close>

definition array_get :: "'a list \<Rightarrow> rat \<Rightarrow> 'a option" where
  "array_get xs i =
     (if i = of_int \<lfloor>i\<rfloor> \<and> 0 \<le> i \<and> nat \<lfloor>i\<rfloor> < length xs then Some (xs ! nat \<lfloor>i\<rfloor>) else None)"

text \<open>
  \<open>Math.floor(Math.log(1 + magnitude[i] / maxMag) * 255 / Math.log(2))\<close> as stored,
  every quotient, sum and product rounded to a double: an undefined magnitude makes the
  intensity \<open>NaN\<close>, stored as 0.
\<close>

definition pe_intensity :: "math_log \<Rightarrow> real option \<Rightarrow> real \<Rightarrow> int" where
  "pe_intensity L m maxMag =
     (case m of
        None \<Rightarrow> 0
      | Some mag \<Rightarrow>
          if maxMag = 0 then (if 0 < mag then 255 else 0)
          else (let logMag = Math_log L (fl (1 + fl (mag / maxMag)))
                in to_uint8_clamped \<lfloor>fl (fl (logMag * 255) / Math_log L 2)\<rfloor>))"

definition pe_put_pixel :: "math_log \<Rightarrow> real list \<Rightarrow> nat \<Rightarrow> nat \<Rightarrow> real \<Rightarrow> nat \<Rightarrow> nat \<Rightarrow> int list \<Rightarrow> int list" where
  "pe_put_pixel L magnitude W H maxMag y x d =
     (let i = pe_shifted_index W H x y;
          originalI = y * W + x;
          v = pe_intensity L (array_get magnitude i) maxMag
      in d[originalI * 4 := v, originalI * 4 + 1 := v, originalI * 4 + 2 := v,
           originalI * 4 + 3 := 255])"

definition pe_visualizeFFT :: "math_log \<Rightarrow> real list \<Rightarrow> nat \<Rightarrow> nat \<Rightarrow> real \<Rightarrow> image_data" where
  "pe_visualizeFFT L magnitude W H maxMag =
     \<lparr>width = W, height = H,
      data = fold (\<lambda>y. fold (pe_put_pixel L magnitude W H maxMag y) [0..<W]) [0..<H]
               (replicate (4 * (W * H)) 0)\<rparr>"

text \<open>The byte of channel \<open>c\<close> that \<open>FFTAnalyzer.visualizeFFT\<close> stores for pixel number \<open>p\<close>.\<close>

definition pixel_byte :: "math_log \<Rightarrow> real list \<Rightarrow> nat \<Rightarrow> nat \<Rightarrow> real \<Rightarrow> nat \<Rightarrow> nat \<Rightarrow> int" where
  "pixel_byte L magnitude W H maxMag p c =
     (if c = 3 then 255
      else intensity L (magnitude ! shifted_index W H (p mod W) (p div W)) maxMag)"

text \<open>
  A logarithm to evaluate with: a step function through the doubles
  0.6931471805599453 and 3.4657359027997265 that \<open>Math.log\<close> returns at 2 and at 32.
\<close>

definition sample_log_fun :: "real \<Rightarrow> real" where
  "sample_log_fun x =
     (if x < 2 then 0
      else if x < 32 then 6243314768165359 / 9007199254740992
      else 7804143460206699 / 2251799813685248)"

definition sample_log :: math_log where
  "sample_log = Abs_math_log sample_log_fun"

section \<open>FFTAnalyzer: the one-dimensional transform\<close>

unbundle bit_operations_syntax

text \<open>
  The transform is modelled over the real numbers: the numbers held in a
  \<open>Float32Array\<close> and those computed with \<open>Math.cos\<close>, \<open>Math.sin\<close> and
  \<open>Math.sqrt\<close> are real numbers, and their rounding to floating point is left out.

  \<open>while (paddedN < N) paddedN *= 2\<close>, entered with \<open>paddedN = 1\<close>. The test
  \<open>0 < paddedN\<close> is not in the source; it makes the recursion total for the value 0,
  which the loop never holds.
\<close>

function pad_loop :: "nat \<Rightarrow> nat \<Rightarrow> nat" where
  "pad_loop paddedN N = (if 0 < paddedN \<and> paddedN < N then pad_loop (paddedN * 2) N else paddedN)"
  by pat_completeness auto
termination
  by (relation "measure (\<lambda>(p, N). N - p)") auto

declare pad_loop.simps [simp del]

text \<open>\<open>paddedReal.set(real)\<close>: the source copied over the start of the destination.\<close>

definition typed_set :: "real list \<Rightarrow> real list \<Rightarrow> real list" where
  "typed_set dst src = src @ drop (length src) dst"

text \<open>
  The carry loop of the bit-reversed counter,
  \<open>for (; j & bit; bit >>= 1) j ^= bit\<close>; it returns \<open>j\<close> and \<open>bit\<close> (here \<open>b\<close>).
  Indices are below \<open>2^31\<close>, where the 32-bit operators of the source agree with
  the operations on natural numbers.
\<close>

function bitrev_carry :: "nat \<Rightarrow> nat \<Rightarrow> nat \<times> nat" where
  "bitrev_carry j b =
     (if j AND b \<noteq> 0 then bitrev_carry (j XOR b) (drop_bit 1 b) else (j, b))"
  by pat_completeness auto
termination
proof (relation "measure (\<lambda>(j, b). b)")
  show "wf (measure (\<lambda>(j, b). b))" by simp
next
  fix j b :: nat
  assume "j AND b \<noteq> 0"
  then have "b \<noteq> 0" by (rule_tac ccontr) simp
  then show "((j XOR b, drop_bit 1 b), (j, b)) \<in> measure (\<lambda>(j, b). b)"
    by (simp add: drop_bit_eq_div)
qed

declare bitrev_carry.simps [simp del]

text \<open>The destructuring swap \<open>[a[i], a[j]] = [a[j], a[i]]\<close>.\<close>

definition swap :: "real list \<Rightarrow> nat \<Rightarrow> nat \<Rightarrow> real list" where
  "swap a i j = (let ai = a ! i; aj = a ! j in (a[i := aj])[j := ai])"

text \<open>
  The b-reversal permutation, \<open>for (let i = 1, j = 0; i < len; i++)\<close>, on the real
  and imaginary arrays. This and the following definitions describe the call with two
  distinct arrays, as every caller in the repository makes it; the version on a store of
  arrays is given further down.
\<close>

function bitrev_loop :: "nat \<Rightarrow> nat \<Rightarrow> nat \<Rightarrow> real list \<Rightarrow> real list \<Rightarrow> real list \<times> real list" where
  "bitrev_loop len i j re im =
     (if i < len
      then (let (j1, b) = bitrev_carry j (drop_bit 1 len);
                j2 = j1 XOR b
            in if i < j2 then bitrev_loop len (i + 1) j2 (swap re i j2) (swap im i j2)
               else bitrev_loop len (i + 1) j2 re im)
      else (re, im))"
  by pat_completeness auto
termination
  by (relation "measure (\<lambda>(len, i, j, re, im). len - i)") auto

declare bitrev_loop.simps [simp del]

text \<open>One butterfly: the body of the innermost loop, for block start \<open>i\<close> and offset \<open>j\<close>.\<close>

definition butterfly :: "real \<Rightarrow> nat \<Rightarrow> nat \<Rightarrow> nat \<Rightarrow> real list \<times> real list \<Rightarrow> real list \<times> real list" where
  "butterfly angle halfSize i j = (\<lambda>(re, im).
     (let k = i + j;
          l = k + halfSize;
          tReal = re ! l * cos (angle * real j) - im ! l * sin (angle * real j);
          tImag = re ! l * sin (angle * real j) + im ! l * cos (angle * real j);
          re1 = re[l := re ! k - tReal];
          im1 = im[l := im ! k - tImag];
          re2 = re1[k := re1 ! k + tReal];
          im2 = im1[k := im1 ! k + tImag]
      in (re2, im2)))"

text \<open>\<open>for (let j = 0; j < halfSize; j++)\<close>\<close>

definition block_loop :: "real \<Rightarrow> nat \<Rightarrow> nat \<Rightarrow> real list \<times> real list \<Rightarrow> real list \<times> real list" where
  "block_loop angle halfSize i = fold (butterfly angle halfSize i) [0..<halfSize]"

text \<open>
  \<open>for (let i = 0; i < len; i += size)\<close>. The test \<open>0 < size\<close> is not in the
  source; the loop is only entered with \<open>size \<ge> 2\<close>.
\<close>

function blocks_loop :: "nat \<Rightarrow> nat \<Rightarrow> nat \<Rightarrow> real list \<times> real list \<Rightarrow> real list \<times> real list" where
  "blocks_loop len sz i a =
     (if 0 < sz \<and> i < len
      then blocks_loop len sz (i + sz)
             (block_loop (- 2 * pi / real sz) (sz div 2) i a)
      else a)"
  by pat_completeness auto
termination
  by (relation "measure (\<lambda>(len, sz, i, a). len - i)") auto

declare blocks_loop.simps [simp del]

text \<open>\<open>for (let size = 2; size <= len; size *= 2)\<close>, with the same added test.\<close>

function stages_loop :: "nat \<Rightarrow> nat \<Rightarrow> real list \<times> real list \<Rightarrow> real list \<times> real list" where
  "stages_loop len sz a =
     (if 0 < sz \<and> sz \<le> len
      then stages_loop len (sz * 2) (blocks_loop len sz 0 a)
      else a)"
  by pat_completeness auto
termination
  by (relation "measure (\<lambda>(len, sz, a). Suc len - sz)") auto

declare stages_loop.simps [simp del]

text \<open>
  \<open>FFTAnalyzer.fft1D\<close> on two arrays of the same length: the early return, the
  padding, the permutation, the butterfly passes and the truncation.
\<close>

definition fft1D :: "real list \<Rightarrow> real list \<Rightarrow> real list \<times> real list" where
  "fft1D real_in imag_in =
     (let N = length real_in
      in if N \<le> 1 then (real_in, imag_in)
         else
           (let paddedN = pad_loop 1 N;
                (re0, im0) =
                  (if paddedN \<noteq> N
                   then (typed_set (replicate paddedN 0) real_in,
                         typed_set (replicate paddedN 0) imag_in)
                   else (real_in, imag_in));
                len = length re0;
                (re1, im1) = bitrev_loop len 1 0 re0 im0;
                (re2, im2) = stages_loop len 2 (re1, im1)
            in (if N = len then re2 else take N re2,
                if N = len then im2 else take N im2)))"

section \<open>FFTAnalyzer: the two-dimensional transform and the analysis pipeline\<close>

text \<open>One row pass of \<open>fft2D\<close>: gather row \<open>y\<close>, transform it, write it back.\<close>

definition fft_row :: "nat \<Rightarrow> nat \<Rightarrow> real list \<times> real list \<Rightarrow> real list \<times> real list" where
  "fft_row W y = (\<lambda>(re, im).
     (let rowReal = map (\<lambda>x. re ! (y * W + x)) [0..<W];
          rowImag = map (\<lambda>x. im ! (y * W + x)) [0..<W];
          (fr, fi) = fft1D rowReal rowImag
      in (fold (\<lambda>x r. r[y * W + x := fr ! x]) [0..<W] re,
          fold (\<lambda>x r. r[y * W + x := fi ! x]) [0..<W] im)))"

definition fft_col :: "nat \<Rightarrow> nat \<Rightarrow> nat \<Rightarrow> real list \<times> real list \<Rightarrow> real list \<times> real list" where
  "fft_col W H x = (\<lambda>(re, im).
     (let colReal = map (\<lambda>y. re ! (y * W + x)) [0..<H];
          colImag = map (\<lambda>y. im ! (y * W + x)) [0..<H];
          (fr, fi) = fft1D colReal colImag
      in (fold (\<lambda>y r. r[y * W + x := fr ! y]) [0..<H] re,
          fold (\<lambda>y r. r[y * W + x := fi ! y]) [0..<H] im)))"

definition fft2D :: "real list \<Rightarrow> nat \<Rightarrow> nat \<Rightarrow> real list \<times> real list" where
  "fft2D d W H =
     (let result = (map (\<lambda>i. d ! i) [0..<W * H], replicate (W * H) 0);
          rows = fold (fft_row W) [0..<H] result
      in fold (fft_col W H) [0..<W] rows)"

text \<open>The grayscale field of an image, the magnitude spectrum and its running maximum.\<close>

definition grayscale :: "image_data \<Rightarrow> real list" where
  "grayscale im =
     map (\<lambda>i. (0.299 * real_of_int (data im ! (i * 4)) + 0.587 * real_of_int (data im ! (i * 4 + 1))
               + 0.114 * real_of_int (data im ! (i * 4 + 2))) / 255)
       [0..<width im * height im]"

definition magnitude_spectrum :: "real list \<times> real list \<Rightarrow> nat \<Rightarrow> real list" where
  "magnitude_spectrum f n = map (\<lambda>i. sqrt (fst f ! i * fst f ! i + snd f ! i * snd f ! i)) [0..<n]"

definition max_magnitude :: "real list \<Rightarrow> real" where
  "max_magnitude mags = fold (\<lambda>m maxMag. if m > maxMag then m else maxMag) mags 0"

text \<open>
  \<open>FFTAnalyzer.computeFFT\<close>: the image data drawn in the spectrum window for the
  content of the background canvas.
\<close>

definition computeFFT :: "math_log \<Rightarrow> canvas \<Rightarrow> image_data" where
  "computeFFT L bg =
     (let imageData = getImageData bg 0 0 (width bg) (height bg);
          W = width imageData;
          H = height imageData;
          gray = grayscale imageData;
          fftResult = fft2D gray W H;
          magnitude = magnitude_spectrum fftResult (W * H);
          maxMag = max_magnitude magnitude
      in visualizeFFT L magnitude W H maxMag)"

text \<open>
  The part of \<open>fft1D\<close> that works in place on arrays whose length is a power of
  two: the bit-reversal permutation followed by the butterfly passes.
\<close>

definition fft_inplace :: "real list \<Rightarrow> real list \<Rightarrow> real list \<times> real list" where
  "fft_inplace re im = stages_loop (length re) 2 (bitrev_loop (length re) 1 0 re im)"

section \<open>The mathematical reference: bit reversal and the discrete Fourier transform\<close>

text \<open>The number whose \<open>k\<close> low bits are those of \<open>n\<close> in reverse order.\<close>

fun bitrev :: "nat \<Rightarrow> nat \<Rightarrow> nat" where
  "bitrev 0 n = 0"
| "bitrev (Suc k) n = 2 ^ k * (n mod 2) + bitrev k (n div 2)"

text \<open>
  The forward, unnormalized discrete Fourier transform of the first \<open>n\<close> values of a
  complex sequence: \<open>DFT n f j\<close> is the sum of \<open>f t * e^(-2 \<pi> i j t / n)\<close> over
  \<open>t < n\<close>.
\<close>

definition DFT :: "nat \<Rightarrow> (nat \<Rightarrow> complex) \<Rightarrow> nat \<Rightarrow> complex" where
  "DFT n f j = (\<Sum>t<n. f t * cis (- 2 * pi * real j * real t / real n))"

text \<open>The complex number held at index \<open>p\<close> of a pair of real and imaginary arrays.\<close>

definition cvec :: "real list \<times> real list \<Rightarrow> nat \<Rightarrow> complex" where
  "cvec a p = Complex (fst a ! p) (snd a ! p)"

text \<open>
  The state of one array while the permutation loop runs: positions below \<open>i\<close>, and
  the positions they were exchanged with, hold the bit-reversed element of the original.
\<close>

definition partial_rev :: "nat \<Rightarrow> nat \<Rightarrow> real list \<Rightarrow> real list \<Rightarrow> bool" where
  "partial_rev k i orig a \<longleftrightarrow>
     length a = 2 ^ k \<and>
     (\<forall>t<2 ^ k. a ! t = (if t < i \<or> bitrev k t < i then orig ! bitrev k t else orig ! t))"

text \<open>
  One decimation-in-time pass with half block size \<open>h\<close> on a complex sequence: the
  lower half of each block of \<open>2 h\<close> elements receives sum, the upper half difference.
\<close>

definition dit_stage :: "nat \<Rightarrow> (nat \<Rightarrow> complex) \<Rightarrow> nat \<Rightarrow> complex" where
  "dit_stage h f p =
     (if p mod (2 * h) < h
      then f p + cis (- 2 * pi / real (2 * h) * real (p mod (2 * h))) * f (p + h)
      else f (p - h) - cis (- 2 * pi / real (2 * h) * real (p mod (2 * h) - h)) * f p)"

text \<open>
  What the array holds after the passes up to block size \<open>2^m\<close>, when \<open>2^q\<close> blocks
  remain: block \<open>b\<close> is the transform of the input samples taken with stride
  \<open>2^q\<close> from offset \<open>bitrev q b\<close>.
\<close>

definition stage_inv :: "nat \<Rightarrow> nat \<Rightarrow> (nat \<Rightarrow> complex) \<Rightarrow> (nat \<Rightarrow> complex) \<Rightarrow> bool" where
  "stage_inv m q x A \<longleftrightarrow>
     (\<forall>b<2 ^ q. \<forall>j<2 ^ m. A (b * 2 ^ m + j) = DFT (2 ^ m) (\<lambda>t. x (t * 2 ^ q + bitrev q b)) j)"

section \<open>FFTAnalyzer.fft1D on a store of arrays\<close>

text \<open>
  Whether \<open>fft1D\<close> returns its argument arrays or new ones, and whether it writes to
  the caller's arrays, is a statement about array identity. Here the typed arrays live
  in a store, a list of arrays addressed by position; \<open>new Float32Array\<close> and
  \<open>slice\<close> allocate at the end of the store. The loops are those of the source,
  reading and writing through the two array references, which may be the same.
\<close>

type_synonym heap = "real list list"

definition h_get :: "heap \<Rightarrow> nat \<Rightarrow> nat \<Rightarrow> real" where
  "h_get h a p = h ! a ! p"

definition h_set :: "heap \<Rightarrow> nat \<Rightarrow> nat \<Rightarrow> real \<Rightarrow> heap" where
  "h_set h a p v = h[a := (h ! a)[p := v]]"

definition alloc :: "heap \<Rightarrow> real list \<Rightarrow> heap \<times> nat" where
  "alloc h a = (h @ [a], length h)"

definition h_swap :: "heap \<Rightarrow> nat \<Rightarrow> nat \<Rightarrow> nat \<Rightarrow> heap" where
  "h_swap h a i j = (let ai = h_get h a i; aj = h_get h a j in h_set (h_set h a i aj) a j ai)"

function heap_bitrev_loop :: "nat \<Rightarrow> nat \<Rightarrow> nat \<Rightarrow> nat \<Rightarrow> nat \<Rightarrow> heap \<Rightarrow> heap" where
  "heap_bitrev_loop re im len i j h =
     (if i < len
      then (let (j1, b) = bitrev_carry j (drop_bit 1 len);
                j2 = j1 XOR b
            in if i < j2
               then heap_bitrev_loop re im len (i + 1) j2 (h_swap (h_swap h re i j2) im i j2)
               else heap_bitrev_loop re im len (i + 1) j2 h)
      else h)"
  by pat_completeness auto
termination
  by (relation "measure (\<lambda>(re, im, len, i, j, h). len - i)") auto

declare heap_bitrev_loop.simps [simp del]

definition heap_butterfly :: "nat \<Rightarrow> nat \<Rightarrow> real \<Rightarrow> nat \<Rightarrow> nat \<Rightarrow> nat \<Rightarrow> heap \<Rightarrow> heap" where
  "heap_butterfly re im angle halfSize i j h =
     (let k = i + j;
          l = k + halfSize;
          tReal = h_get h re l * cos (angle * real j) - h_get h im l * sin (angle * real j);
          tImag = h_get h re l * sin (angle * real j) + h_get h im l * cos (angle * real j);
          h1 = h_set h re l (h_get h re k - tReal);
          h2 = h_set h1 im l (h_get h1 im k - tImag);
          h3 = h_set h2 re k (h_get h2 re k + tReal);
          h4 = h_set h3 im k (h_get h3 im k + tImag)
      in h4)"

definition heap_block_loop :: "nat \<Rightarrow> nat \<Rightarrow> real \<Rightarrow> nat \<Rightarrow> nat \<Rightarrow> heap \<Rightarrow> heap" where
  "heap_block_loop re im angle halfSize i = fold (heap_butterfly re im angle halfSize i) [0..<halfSize]"

function heap_blocks_loop :: "nat \<Rightarrow> nat \<Rightarrow> nat \<Rightarrow> nat \<Rightarrow> nat \<Rightarrow> heap \<Rightarrow> heap" where
  "heap_blocks_loop re im len sz i h =
     (if 0 < sz \<and> i < len
      then heap_blocks_loop re im len sz (i + sz)
             (heap_block_loop re im (- 2 * pi / real sz) (sz div 2) i h)
      else h)"
  by pat_completeness auto
termination
  by (relation "measure (\<lambda>(re, im, len, sz, i, h). len - i)") auto

declare heap_blocks_loop.simps [simp del]

function heap_stages_loop :: "nat \<Rightarrow> nat \<Rightarrow> nat \<Rightarrow> nat \<Rightarrow> heap \<Rightarrow> heap" where
  "heap_stages_loop re im len sz h =
     (if 0 < sz \<and> sz \<le> len
      then heap_stages_loop re im len (sz * 2) (heap_blocks_loop re im len sz 0 h)
      else h)"
  by pat_completeness auto
termination
  by (relation "measure (\<lambda>(re, im, len, sz, h). Suc len - sz)") auto

declare heap_stages_loop.simps [simp del]

text \<open>
  \<open>FFTAnalyzer.fft1D\<close> on the store: the store after the call and the references
  to the returned real and imaginary arrays.
\<close>

definition fft1D_heap :: "heap \<Rightarrow> nat \<Rightarrow> nat \<Rightarrow> heap \<times> nat \<times> nat" where
  "fft1D_heap h real_in imag_in =
     (let N = length (h ! real_in)
      in if N \<le> 1 then (h, real_in, imag_in)
         else
           (let paddedN = pad_loop 1 N;
                (h1, re, im) =
                  (if paddedN \<noteq> N
                   then (let (ha, paddedReal) = alloc h (replicate paddedN 0);
                             (hb, paddedImag) = alloc ha (replicate paddedN 0);
                             hc = hb[paddedReal := typed_set (hb ! paddedReal) (hb ! real_in)];
                             hd = hc[paddedImag := typed_set (hc ! paddedImag) (hc ! imag_in)]
                         in (hd, paddedReal, paddedImag))
                   else (h, real_in, imag_in));
                len = length (h1 ! re);
                h2 = heap_bitrev_loop re im len 1 0 h1;
                h3 = heap_stages_loop re im len 2 h2;
                (h4, out_re) = (if N = len then (h3, re) else alloc h3 (take N (h3 ! re)));
                (h5, out_im) = (if N = len then (h4, im) else alloc h4 (take N (h4 ! im)))
            in (h5, out_re, out_im)))"

text \<open>The store with the arrays at two references replaced.\<close>

definition put2 :: "heap \<Rightarrow> nat \<Rightarrow> nat \<Rightarrow> real list \<times> real list \<Rightarrow> heap" where
  "put2 h re im a = h[re := fst a, im := snd a]"

section \<open>PhotoEditor.fft1D, the transform of the single-file editor\<close>

text \<open>
  This variant does not pad, so for some lengths it reads past the end of its arrays.
  Its numbers are therefore modelled with a not-a-number value: \<open>None\<close> stands for
  \<open>NaN\<close>, which is what arithmetic makes of \<open>undefined\<close> and what a
  \<open>Float32Array\<close> stores for it. A store past the end of the array is dropped.
\<close>

type_synonym jsnum = "real option"

definition js_get :: "jsnum list \<Rightarrow> nat \<Rightarrow> jsnum" where
  "js_get a i = (if i < length a then a ! i else None)"

definition js_add :: "jsnum \<Rightarrow> jsnum \<Rightarrow> jsnum" where
  "js_add x y = (case x of None \<Rightarrow> None | Some a \<Rightarrow> (case y of None \<Rightarrow> None | Some b \<Rightarrow> Some (a + b)))"

definition js_sub :: "jsnum \<Rightarrow> jsnum \<Rightarrow> jsnum" where
  "js_sub x y = (case x of None \<Rightarrow> None | Some a \<Rightarrow> (case y of None \<Rightarrow> None | Some b \<Rightarrow> Some (a - b)))"

text \<open>The product of an array element and a twiddle component, which is never \<open>NaN\<close>.\<close>

definition js_scale :: "jsnum \<Rightarrow> real \<Rightarrow> jsnum" where
  "js_scale x w = (case x of None \<Rightarrow> None | Some a \<Rightarrow> Some (a * w))"

definition pe_swap :: "jsnum list \<Rightarrow> nat \<Rightarrow> nat \<Rightarrow> jsnum list" where
  "pe_swap a i j = (let ai = js_get a i; aj = js_get a j in (a[i := aj])[j := ai])"

function pe_bitrev_loop :: "nat \<Rightarrow> nat \<Rightarrow> nat \<Rightarrow> jsnum list \<Rightarrow> jsnum list \<Rightarrow> jsnum list \<times> jsnum list" where
  "pe_bitrev_loop N i j re im =
     (if i < N
      then (let (j1, b) = bitrev_carry j (drop_bit 1 N);
                j2 = j1 XOR b
            in if i < j2 then pe_bitrev_loop N (i + 1) j2 (pe_swap re i j2) (pe_swap im i j2)
               else pe_bitrev_loop N (i + 1) j2 re im)
      else (re, im))"
  by pat_completeness auto
termination
  by (relation "measure (\<lambda>(N, i, j, re, im). N - i)") auto

declare pe_bitrev_loop.simps [simp del]

text \<open>
  The body of the innermost loop; the state carries the running twiddle factor
  \<open>(w_real, w_imag)\<close>, multiplied by \<open>(wlen_real, wlen_imag)\<close> after each butterfly.
\<close>

definition pe_butterfly ::
  "real \<Rightarrow> real \<Rightarrow> nat \<Rightarrow> nat \<Rightarrow> nat \<Rightarrow> jsnum list \<times> jsnum list \<times> real \<times> real
   \<Rightarrow> jsnum list \<times> jsnum list \<times> real \<times> real" where
  "pe_butterfly wlen_real wlen_imag len i j = (\<lambda>(re, im, w_real, w_imag).
     (let half = len div 2;
          u_real = js_get re (i + j);
          u_imag = js_get im (i + j);
          v_real = js_sub (js_scale (js_get re (i + j + half)) w_real)
                          (js_scale (js_get im (i + j + half)) w_imag);
          v_imag = js_add (js_scale (js_get re (i + j + half)) w_imag)
                          (js_scale (js_get im (i + j + half)) w_real);
          re1 = re[i + j := js_add u_real v_real];
          im1 = im[i + j := js_add u_imag v_imag];
          re2 = re1[i + j + half := js_sub u_real v_real];
          im2 = im1[i + j + half := js_sub u_imag v_imag];
          next_w_real = w_real * wlen_real - w_imag * wlen_imag;
          w_imag' = w_real * wlen_imag + w_imag * wlen_real
      in (re2, im2, next_w_real, w_imag')))"

text \<open>One block: \<open>w = 1\<close>, then \<open>for (let j = 0; j < len / 2; j++)\<close>.\<close>

definition pe_block_loop :: "nat \<Rightarrow> nat \<Rightarrow> jsnum list \<times> jsnum list \<Rightarrow> jsnum list \<times> jsnum list" where
  "pe_block_loop len i = (\<lambda>(re, im).
     (let angle = - 2 * pi / real len;
          wlen_real = cos angle;
          wlen_imag = sin angle;
          (re', im', w_real, w_imag) =
            fold (pe_butterfly wlen_real wlen_imag len i) [0..<len div 2] (re, im, 1, 0)
      in (re', im')))"

text \<open>\<open>for (let i = 0; i < N; i += len)\<close> and \<open>for (let len = 2; len <= N; len <<= 1)\<close>,
  each with the added test that the step is positive.\<close>

function pe_blocks_loop :: "nat \<Rightarrow> nat \<Rightarrow> nat \<Rightarrow> jsnum list \<times> jsnum list \<Rightarrow> jsnum list \<times> jsnum list" where
  "pe_blocks_loop N len i a =
     (if 0 < len \<and> i < N then pe_blocks_loop N len (i + len) (pe_block_loop len i a) else a)"
  by pat_completeness auto
termination
  by (relation "measure (\<lambda>(N, len, i, a). N - i)") auto

declare pe_blocks_loop.simps [simp del]

function pe_stages_loop :: "nat \<Rightarrow> nat \<Rightarrow> jsnum list \<times> jsnum list \<Rightarrow> jsnum list \<times> jsnum list" where
  "pe_stages_loop N len a =
     (if 0 < len \<and> len \<le> N then pe_stages_loop N (len * 2) (pe_blocks_loop N len 0 a) else a)"
  by pat_completeness auto
termination
  by (relation "measure (\<lambda>(N, len, a). Suc N - len)") auto

declare pe_stages_loop.simps [simp del]

text \<open>\<open>PhotoEditor.fft1D\<close>; the arrays it returns are copies of the transformed inputs.\<close>

definition pe_fft1D :: "jsnum list \<Rightarrow> jsnum list \<Rightarrow> jsnum list \<times> jsnum list" where
  "pe_fft1D real_in imag_in =
     (let N = length real_in
      in if N \<le> 1 then (real_in, imag_in)
         else pe_stages_loop N 2 (pe_bitrev_loop N 1 0 real_in imag_in))"

text \<open>A pair of arrays all of whose elements are numbers, none \<open>NaN\<close>.\<close>

definition defined_arrays :: "real list \<times> real list \<Rightarrow> jsnum list \<times> jsnum list" where
  "defined_arrays a = (map Some (fst a), map Some (snd a))"

section \<open>Rounding to double precision: order and error\<close>

lemma round_half_even_lower: "\<lfloor>x\<rfloor> \<le> round_half_even x" by (simp add: round_half_even_def Let_def)
lemma round_half_even_upper: "round_half_even x \<le> \<lceil>x\<rceil>"
proof (cases "x = of_int \<lfloor>x\<rfloor>")
  case True
  then have "\<lceil>x\<rceil> = \<lfloor>x\<rfloor>" by (metis ceiling_of_int)
  moreover have "round_half_even x = \<lfloor>x\<rfloor>"
    using True by (simp add: round_half_even_def Let_def)
  ultimately show ?thesis by simp
next
  case False
  then have "\<lceil>x\<rceil> = \<lfloor>x\<rfloor> + 1" by (simp add: ceiling_altdef)
  moreover have "round_half_even x \<le> \<lfloor>x\<rfloor> + 1"
    by (simp add: round_half_even_def Let_def)
  ultimately show ?thesis by simp
qed

lemma round_half_even_of_int: "round_half_even (of_int n) = n"
  by (simp add: round_half_even_def)

lemma round_half_even_mono: assumes "x \<le> y" shows "round_half_even x \<le> round_half_even y"
proof (cases "\<lfloor>x\<rfloor> = \<lfloor>y\<rfloor>")
  case True
  then show ?thesis using assms by (auto simp: round_half_even_def Let_def)
next
  case False
  then have "\<lfloor>x\<rfloor> < \<lfloor>y\<rfloor>" using assms floor_mono[OF assms] by linarith
  then have "\<lfloor>x\<rfloor> + 1 \<le> \<lfloor>y\<rfloor>" by simp
  moreover have "round_half_even x \<le> \<lfloor>x\<rfloor> + 1" by (simp add: round_half_even_def Let_def)
  ultimately show ?thesis using round_half_even_lower[of y] by linarith
qed

lemma exp_hi_bounds:
  "1 \<le> x \<Longrightarrow> 2 powi (exp_hi x) \<le> x \<and> x < 2 powi (exp_hi x + 1)"
proof (induction x rule: exp_hi.induct)
  case (1 x)
  show ?case
  proof (cases "2 \<le> x")
    case True
    then have "2 powi exp_hi (x / 2) \<le> x / 2 \<and> x / 2 < 2 powi (exp_hi (x / 2) + 1)"
      using 1 by simp
    moreover have "exp_hi x = exp_hi (x / 2) + 1" using True by (subst exp_hi.simps) simp
    ultimately show ?thesis by (simp add: power_int_add)
  next
    case False
    then have "exp_hi x = 0" by (subst exp_hi.simps) simp
    then show ?thesis using False 1 by simp
  qed
qed

lemma exp_lo_bounds:
  "0 < x \<Longrightarrow> x < 1 \<Longrightarrow> 2 powi (exp_lo x) \<le> x \<and> x < 2 powi (exp_lo x + 1)"
proof (induction x rule: exp_lo.induct)
  case (1 x)
  have e: "exp_lo x = exp_lo (2 * x) - 1" using 1 by (subst exp_lo.simps) simp
  show ?case
  proof (cases "2 * x < 1")
    case True
    then have "2 powi exp_lo (2 * x) \<le> 2 * x \<and> 2 * x < 2 powi (exp_lo (2 * x) + 1)"
      using 1 by simp
    then show ?thesis unfolding e by (simp add: power_int_add power_int_diff)
  next
    case False
    then have "exp_lo (2 * x) = 0" by (subst exp_lo.simps) simp
    then show ?thesis unfolding e using False 1 by (simp add: power_int_minus)
  qed
qed

lemma exponent_bounds:
  "0 < x \<Longrightarrow> 2 powi (exponent x) \<le> x \<and> x < 2 powi (exponent x + 1)"
  using exp_hi_bounds[of x] exp_lo_bounds[of x] by (simp add: exponent_def)

lemma exponent_mono:
  assumes "0 < x" "x \<le> y" shows "exponent x \<le> exponent y"
proof (rule ccontr)
  assume "\<not> exponent x \<le> exponent y"
  then have "exponent y + 1 \<le> exponent x" by simp
  then have "(2::real) powi (exponent y + 1) \<le> 2 powi exponent x"
    by (intro power_int_increasing) simp_all
  then show False
    using exponent_bounds[of x] exponent_bounds[of y] assms by linarith
qed

lemma fl_0: "fl 0 = 0" by (simp add: fl_def)

lemma fl_minus: "fl (- x) = - fl x"
  by (simp add: fl_def Let_def sgn_minus)

lemma fl_pos_eq:
  "0 < x \<Longrightarrow> fl x = of_int (round_half_even (x / 2 powi (exponent x - 52))) * 2 powi (exponent x - 52)"
  by (simp add: fl_def Let_def)

lemma fl_bounds:
  assumes "0 < x"
  shows "2 powi (exponent x) \<le> fl x \<and> fl x \<le> 2 powi (exponent x + 1)"
proof -
  define e where "e = exponent x"
  define u :: real where "u = 2 powi (e - 52)"
  have u: "0 < u" by (simp add: u_def)
  have b: "2 powi e \<le> x" "x < 2 powi (e + 1)"
    using exponent_bounds[OF assms] by (simp_all add: e_def)
  have p1: "(2::real) powi e = 2 ^ 52 * u"
    by (simp add: u_def power_int_diff)
  have p2: "(2::real) powi (e + 1) = 2 ^ 53 * u"
    by (simp add: u_def power_int_diff power_int_add)
  have lo: "2 ^ 52 \<le> x / u" using b(1) u by (simp add: p1 pos_le_divide_eq)
  have hi: "x / u \<le> 2 ^ 53" using b(2) u by (simp add: p2 pos_divide_le_eq)
  have "(2 ^ 52 :: int) \<le> \<lfloor>x / u\<rfloor>" using lo by (simp add: le_floor_iff)
  then have r1: "2 ^ 52 \<le> round_half_even (x / u)" using round_half_even_lower[of "x / u"] by linarith
  have "\<lceil>x / u\<rceil> \<le> (2 ^ 53 :: int)" using hi by (simp add: ceiling_le_iff)
  then have r2: "round_half_even (x / u) \<le> 2 ^ 53" using round_half_even_upper[of "x / u"] by linarith
  have f: "fl x = of_int (round_half_even (x / u)) * u"
    using fl_pos_eq[OF assms] by (simp add: u_def e_def)
  have "2 ^ 52 * u \<le> of_int (round_half_even (x / u)) * u"
    using r1 u by (intro mult_right_mono) (simp_all add: of_int_le_iff[symmetric] del: of_int_le_iff)
  moreover have "of_int (round_half_even (x / u)) * u \<le> 2 ^ 53 * u"
    using r2 u by (intro mult_right_mono) (simp_all add: of_int_le_iff[symmetric] del: of_int_le_iff)
  ultimately show ?thesis unfolding f p1 p2 e_def[symmetric] by simp
qed

lemma fl_pos: "0 < x \<Longrightarrow> 0 < fl x"
proof -
  assume "0 < x"
  moreover have "(0::real) < 2 powi exponent x" by simp
  ultimately show ?thesis using fl_bounds[of x] by linarith
qed

lemma fl_nonneg: "0 \<le> x \<Longrightarrow> 0 \<le> fl x"
  using fl_pos[of x] fl_0 by (cases "x = 0") (simp_all add: less_le)

lemma fl_mono_pos:
  assumes "0 < x" "x \<le> y" shows "fl x \<le> fl y"
proof (cases "exponent x = exponent y")
  case True
  define u :: real where "u = 2 powi (exponent y - 52)"
  have u: "0 < u" by (simp add: u_def)
  have "x / u \<le> y / u" using assms u by (simp add: divide_right_mono)
  then have "round_half_even (x / u) \<le> round_half_even (y / u)" by (rule round_half_even_mono)
  then have "of_int (round_half_even (x / u)) * u \<le> of_int (round_half_even (y / u)) * u"
    using u by (intro mult_right_mono) simp_all
  then show ?thesis
    using fl_pos_eq[of x] fl_pos_eq[of y] assms True by (simp add: u_def)
next
  case False
  then have "exponent x + 1 \<le> exponent y"
    using exponent_mono[OF assms] by simp
  then have "(2::real) powi (exponent x + 1) \<le> 2 powi exponent y"
    by (intro power_int_increasing) simp_all
  then show ?thesis
    using fl_bounds[of x] fl_bounds[of y] assms by linarith
qed

lemma fl_mono: assumes "x \<le> y" shows "fl x \<le> fl y"
proof -
  consider "0 < x" | "x = 0" | "x < 0" "0 \<le> y" | "x < 0" "y < 0" by linarith
  then show ?thesis
  proof cases
    case 1 then show ?thesis using fl_mono_pos assms by simp
  next
    case 2 then show ?thesis using fl_nonneg[of y] assms by (simp add: fl_0)
  next
    case 3
    then have "fl x \<le> 0" using fl_nonneg[of "- x"] by (simp add: fl_minus)
    then show ?thesis using fl_nonneg[of y] 3 by linarith
  next
    case 4
    then have "fl (- y) \<le> fl (- x)" using fl_mono_pos[of "- y" "- x"] assms by simp
    then show ?thesis by (simp add: fl_minus)
  qed
qed

lemma round_half_even_error: "\<bar>of_int (round_half_even x) - x\<bar> \<le> 1 / 2"
  unfolding round_half_even_def Let_def by (auto simp: abs_le_iff)

lemma fl_error:
  assumes "x \<noteq> 0"
  shows "\<bar>fl x - x\<bar> \<le> 2 powi (exponent \<bar>x\<bar> - 53)"
proof -
  have main: "\<bar>fl z - z\<bar> \<le> 2 powi (exponent z - 53)" if z: "0 < z" for z
  proof -
    define u :: real where "u = 2 powi (exponent z - 52)"
    have u: "0 < u" by (simp add: u_def)
    have "fl z - z = (of_int (round_half_even (z / u)) - z / u) * u"
      using fl_pos_eq[OF z] u by (simp add: u_def algebra_simps)
    then have "\<bar>fl z - z\<bar> = \<bar>of_int (round_half_even (z / u)) - z / u\<bar> * u"
      using u by (simp add: abs_mult)
    also have "\<dots> \<le> 1 / 2 * u"
      using round_half_even_error[of "z / u"] u by (intro mult_right_mono) simp_all
    also have "\<dots> = 2 powi (exponent z - 53)"
      by (simp add: u_def power_int_diff)
    finally show ?thesis .
  qed
  show ?thesis
  proof (cases "0 < x")
    case True then show ?thesis using main[of x] by simp
  next
    case False
    then have "0 < - x" using assms by simp
    from main[OF this] show ?thesis using False by (simp add: fl_minus abs_minus_commute)
  qed
qed

lemma fl_fixed:
  assumes "0 < x" "x = of_int m * 2 powi (exponent x - 52)"
  shows "fl x = x"
proof -
  define u :: real where "u = 2 powi (exponent x - 52)"
  have u: "u \<noteq> 0" by (simp add: u_def)
  have "x = of_int m * u" using assms(2) by (simp add: u_def)
  then have "x / u = of_int m * u / u" by simp
  then have "x / u = of_int m" using u by simp
  then have "round_half_even (x / u) = m" by (simp add: round_half_even_of_int)
  then show ?thesis using fl_pos_eq[OF assms(1)] assms(2) by (simp add: u_def)
qed

lemma fl_1: "fl 1 = 1" by code_simp
lemma fl_2: "fl 2 = 2" by code_simp
lemma fl_5: "fl 5 = 5" by code_simp
lemma fl_32: "fl 32 = 32" by code_simp
lemma fl_255: "fl 255 = 255" by code_simp


section \<open>Color scaling: the loop's effect on each byte\<close>

lemma to_uint8_clamped_id: "0 \<le> v \<Longrightarrow> v \<le> 255 \<Longrightarrow> to_uint8_clamped v = v"
  by (simp add: to_uint8_clamped_def)

lemma scale_channel_eq:
  "scale_channel v sc = min 255 (max 0 \<lfloor>fl (of_int v * sc) + 1 / 2\<rfloor>)"
  by (simp add: scale_channel_def to_uint8_clamped_def js_round_def)

lemma scale_channel_range: "0 \<le> scale_channel v sc \<and> scale_channel v sc \<le> 255"
  by (simp add: scale_channel_eq)

lemma length_scale_loop: "length (scale_loop r g b i d) = length d"
proof (induction r g b i d rule: scale_loop.induct)
  case (1 r g b i d)
  show ?case
  proof (cases "i < length d")
    case True
    then show ?thesis
      using "1.IH" by (subst scale_loop.simps) (simp add: Let_def)
  next
    case False
    then show ?thesis by (subst scale_loop.simps) simp
  qed
qed

lemma nth_scale_loop:
  "i mod 4 = 0 \<Longrightarrow> k < length d \<Longrightarrow>
   scale_loop r g b i d ! k =
     (if i \<le> k \<and> k mod 4 \<noteq> 3 then scale_channel (d ! k) (channel_scale r g b k) else d ! k)"
proof (induction r g b i d rule: scale_loop.induct)
  case (1 r g b i d)
  show ?case
  proof (cases "i < length d")
    case False
    with "1.prems" show ?thesis by (subst scale_loop.simps) simp
  next
    case True
    define d1 where "d1 = d[i := scale_channel (d ! i) r]"
    define d2 where "d2 = d1[i + 1 := scale_channel (d1 ! (i + 1)) g]"
    define d3 where "d3 = d2[i + 2 := scale_channel (d2 ! (i + 2)) b]"
    have len: "length d3 = length d" by (simp add: d1_def d2_def d3_def)
    have step: "scale_loop r g b i d = scale_loop r g b (i + 4) d3"
      using True by (subst scale_loop.simps) (simp add: Let_def d1_def d2_def d3_def)
    have m4: "(i + 4) mod 4 = 0" using "1.prems"(1) by simp
    have IH: "scale_loop r g b (i + 4) d3 ! k =
       (if i + 4 \<le> k \<and> k mod 4 \<noteq> 3 then scale_channel (d3 ! k) (channel_scale r g b k) else d3 ! k)"
      using "1.IH"[OF True d1_def d2_def d3_def m4] "1.prems"(2) len by simp
    have d3k: "d3 ! k = (if k = i then scale_channel (d ! k) r
                         else if k = i + 1 then scale_channel (d ! k) g
                         else if k = i + 2 then scale_channel (d ! k) b else d ! k)"
      using "1.prems"(2) by (auto simp: d1_def d2_def d3_def nth_list_update)
    have cases: "k < i \<or> k = i \<or> k = i + 1 \<or> k = i + 2 \<or> k = i + 3 \<or> i + 4 \<le> k" by arith
    have mi: "i mod 4 = 0" by (rule "1.prems"(1))
    have k3: "k = i + 3 \<Longrightarrow> k mod 4 = 3" using mi by presburger
    have k2: "k = i + 2 \<Longrightarrow> k mod 4 = 2" using mi by presburger
    have k1: "k = i + 1 \<Longrightarrow> k mod 4 = 1" using mi by presburger
    from cases show ?thesis
      unfolding step using IH d3k mi k1 k2 k3
      by (elim disjE) (simp_all add: channel_scale_def)
  qed
qed

section \<open>Pixel buffers and the canvas\<close>

lemma nth_concat_uniform:
  "\<forall>xs \<in> set xss. length xs = n \<Longrightarrow> i < length xss \<Longrightarrow> j < n \<Longrightarrow>
   concat xss ! (i * n + j) = xss ! i ! j"
proof (induction xss arbitrary: i)
  case Nil
  then show ?case by simp
next
  case (Cons xs xss)
  show ?case
  proof (cases i)
    case 0
    with Cons.prems show ?thesis by (simp add: nth_append)
  next
    case (Suc i')
    with Cons.prems have "concat xss ! (i' * n + j) = xss ! i' ! j"
      by (intro Cons.IH) auto
    with Suc Cons.prems show ?thesis by (simp add: nth_append add.assoc)
  qed
qed

lemma length_concat_uniform:
  "\<forall>xs \<in> set xss. length xs = n \<Longrightarrow> length (concat xss) = length xss * n"
  by (induction xss) auto

lemma length_pixels:
  "(\<And>i j. length (f i j) = 4) \<Longrightarrow> length (pixels w h f) = 4 * (w * h)"
proof -
  assume f: "\<And>i j. length (f i j) = 4"
  have row: "\<And>j. length (concat (map (\<lambda>i. f i j) [0..<w])) = w * 4"
    using length_concat_uniform[of "map (\<lambda>i. f i _) [0..<w]" 4] f by simp
  have "length (pixels w h f) = h * (w * 4)"
    unfolding pixels_def
    using length_concat_uniform[of "map (\<lambda>j. concat (map (\<lambda>i. f i j) [0..<w])) [0..<h]" "w * 4"] row
    by simp
  then show ?thesis by (simp add: ac_simps)
qed

lemma nth_pixels:
  assumes f: "\<And>i j. length (f i j) = 4" and x: "x < w" and y: "y < h" and c: "c < 4"
  shows "pixels w h f ! (4 * (y * w + x) + c) = f x y ! c"
proof -
  have row: "\<And>j. length (concat (map (\<lambda>i. f i j) [0..<w])) = w * 4"
    using length_concat_uniform[of "map (\<lambda>i. f i _) [0..<w]" 4] f by simp
  have idx: "4 * (y * w + x) + c = y * (w * 4) + (x * 4 + c)" by (simp add: algebra_simps)
  have lt: "x * 4 + c < w * 4" using x c by simp
  have "pixels w h f ! (y * (w * 4) + (x * 4 + c)) =
        map (\<lambda>j. concat (map (\<lambda>i. f i j) [0..<w])) [0..<h] ! y ! (x * 4 + c)"
    unfolding pixels_def
    by (rule nth_concat_uniform) (use row y lt in auto)
  also have "\<dots> = concat (map (\<lambda>i. f i y) [0..<w]) ! (x * 4 + c)" using y by simp
  also have "\<dots> = map (\<lambda>i. f i y) [0..<w] ! x ! c"
    by (rule nth_concat_uniform) (use f x c in auto)
  also have "\<dots> = f x y ! c" using x by simp
  finally show ?thesis by (simp only: idx)
qed

lemma length_pixel_at: "length (pixel_at c px py) = 4"
  by (simp add: pixel_at_def Let_def)

lemma pixel_at_nth:
  assumes "x < width c" "y < height c" "k < 4"
  shows "pixel_at c (int x) (int y) ! k = data c ! (4 * (y * width c + x) + k)"
proof -
  have "k = 0 \<or> k = 1 \<or> k = 2 \<or> k = 3" using assms(3) by arith
  then show ?thesis
    using assms(1,2) by (elim disjE) (simp_all add: pixel_at_def Let_def)
qed

lemma putImageData_extent:
  "width (putImageData c im) = width c \<and> height (putImageData c im) = height c"
  by (simp add: putImageData_def)

lemma putImageData_nth:
  assumes "x < width im" "y < height im" "x < width c" "y < height c" "k < 4"
  shows "data (putImageData c im) ! (4 * (y * width c + x) + k) =
         data im ! (4 * (y * width im + x) + k)"
proof -
  have "data (putImageData c im) ! (4 * (y * width c + x) + k) =
        (if x < width im \<and> y < height im
         then pixel_at im (int x) (int y) else pixel_at c (int x) (int y)) ! k"
    using assms
    nth_pixels[of "\<lambda>i j. if i < width im \<and> j < height im
         then pixel_at im (int i) (int j) else pixel_at c (int i) (int j)" x "width c" y "height c" k]
    by (simp add: putImageData_def length_pixel_at)
  then show ?thesis using assms by (simp add: pixel_at_nth)
qed

lemma getImageData_origin_nth:
  assumes "x < sw" "y < sh" "x < width c" "y < height c" "k < 4"
  shows "data (getImageData c 0 0 sw sh) ! (4 * (y * sw + x) + k) =
         data c ! (4 * (y * width c + x) + k)"
proof -
  have "data (getImageData c 0 0 sw sh) ! (4 * (y * sw + x) + k) =
        pixel_at c (0 + int x) (0 + int y) ! k"
    using assms
    nth_pixels[of "\<lambda>i j. pixel_at c (0 + int i) (0 + int j)" x sw y sh k]
    by (simp add: getImageData_def length_pixel_at)
  then show ?thesis using assms by (simp add: pixel_at_nth)
qed

lemma put_get_roundtrip_nth:
  assumes "x < width im" "y < height im" "width im \<le> width c" "height im \<le> height c" "k < 4"
  shows "data (getImageData (putImageData c im) 0 0 (width im) (height im))
           ! (4 * (y * width im + x) + k) = data im ! (4 * (y * width im + x) + k)"
proof -
  let ?c = "putImageData c im"
  have xc: "x < width ?c" and yc: "y < height ?c"
    using assms by (simp_all add: putImageData_extent)
  have "data (getImageData ?c 0 0 (width im) (height im)) ! (4 * (y * width im + x) + k)
        = data ?c ! (4 * (y * width ?c + x) + k)"
    by (rule getImageData_origin_nth) (use assms xc yc in auto)
  also have "\<dots> = data im ! (4 * (y * width im + x) + k)"
    using putImageData_nth[of x im y c k] assms by (simp add: putImageData_extent)
  finally show ?thesis .
qed

section \<open>The visualization loops: what each byte of the buffer holds\<close>

lemma length_put_pixel: "length (put_pixel L m W H mx y x d) = length d"
  by (simp add: put_pixel_def Let_def)

lemma nth_put_pixel:
  assumes "k < length d" "x < W"
  shows "put_pixel L m W H mx y x d ! k =
         (if k div 4 = y * W + x then pixel_byte L m W H mx (y * W + x) (k mod 4) else d ! k)"
proof (cases "k div 4 = y * W + x")
  case False
  then have "k \<noteq> (y * W + x) * 4" "k \<noteq> (y * W + x) * 4 + 1"
    "k \<noteq> (y * W + x) * 4 + 2" "k \<noteq> (y * W + x) * 4 + 3" by auto
  with False show ?thesis by (simp add: put_pixel_def Let_def)
next
  case True
  have pm: "(y * W + x) mod W = x" "(y * W + x) div W = y" using assms(2) by simp_all
  define q where "q = y * W + x"
  have "k div 4 = q" using True by (simp add: q_def)
  then have "k = q * 4 \<and> k mod 4 = 0 \<or> k = q * 4 + 1 \<and> k mod 4 = 1
      \<or> k = q * 4 + 2 \<and> k mod 4 = 2 \<or> k = q * 4 + 3 \<and> k mod 4 = 3"
    by presburger
  then have "k = (y * W + x) * 4 \<and> k mod 4 = 0 \<or> k = (y * W + x) * 4 + 1 \<and> k mod 4 = 1
      \<or> k = (y * W + x) * 4 + 2 \<and> k mod 4 = 2 \<or> k = (y * W + x) * 4 + 3 \<and> k mod 4 = 3"
    by (simp only: q_def)
  then show ?thesis
    using assms True
    by (elim disjE conjE) (simp_all add: put_pixel_def Let_def pixel_byte_def pm)
qed

lemma row_upto:
  assumes "k < length d" "n \<le> W"
  shows "length (fold (put_pixel L m W H mx y) [0..<n] d) = length d \<and>
         fold (put_pixel L m W H mx y) [0..<n] d ! k =
         (if y * W \<le> k div 4 \<and> k div 4 < y * W + n
          then pixel_byte L m W H mx (k div 4) (k mod 4) else d ! k)"
  using assms(2)
proof (induction n)
  case 0
  then show ?case by simp
next
  case (Suc n)
  let ?d = "fold (put_pixel L m W H mx y) [0..<n] d"
  have IH: "length ?d = length d"
    "?d ! k = (if y * W \<le> k div 4 \<and> k div 4 < y * W + n
          then pixel_byte L m W H mx (k div 4) (k mod 4) else d ! k)"
    using Suc by simp_all
  have step: "fold (put_pixel L m W H mx y) [0..<Suc n] d = put_pixel L m W H mx y n ?d"
    by simp
  have "put_pixel L m W H mx y n ?d ! k =
        (if k div 4 = y * W + n then pixel_byte L m W H mx (y * W + n) (k mod 4) else ?d ! k)"
    by (rule nth_put_pixel) (use IH assms(1) Suc.prems in auto)
  then show ?case
    unfolding step using IH by (auto simp: length_put_pixel)
qed

lemma nth_vis_row:
  assumes "k < length d"
  shows "length (vis_row L m W H mx y d) = length d \<and>
         vis_row L m W H mx y d ! k =
         (if k div 4 div W = y \<and> 0 < W
          then pixel_byte L m W H mx (k div 4) (k mod 4) else d ! k)"
proof -
  have eq: "(y * W \<le> k div 4 \<and> k div 4 < y * W + W) \<longleftrightarrow> (k div 4 div W = y \<and> 0 < W)"
  proof (cases "W = 0")
    case True then show ?thesis by simp
  next
    case False
    then have "k div 4 div W = y \<longleftrightarrow> y * W \<le> k div 4 \<and> k div 4 < (y + 1) * W"
      by (metis Suc_eq_plus1 div_nat_eqI dividend_less_times_div mult.commute mult_Suc_right times_div_less_eq_dividend less_mult_imp_div_less div_le_mono div_mult_self_is_m neq0_conv le_antisym not_less)
    then show ?thesis using False by (simp add: add.commute)
  qed
  show ?thesis
    unfolding vis_row_def using row_upto[OF assms, of W W L m H mx y] eq by simp
qed

lemma rows_upto:
  assumes "k < length d"
  shows "length (fold (vis_row L m W H mx) [0..<n] d) = length d \<and>
         fold (vis_row L m W H mx) [0..<n] d ! k =
         (if k div 4 div W < n \<and> 0 < W
          then pixel_byte L m W H mx (k div 4) (k mod 4) else d ! k)"
proof (induction n)
  case 0
  then show ?case by simp
next
  case (Suc n)
  let ?d = "fold (vis_row L m W H mx) [0..<n] d"
  have IH: "length ?d = length d"
    "?d ! k = (if k div 4 div W < n \<and> 0 < W
          then pixel_byte L m W H mx (k div 4) (k mod 4) else d ! k)"
    using Suc by simp_all
  have step: "fold (vis_row L m W H mx) [0..<Suc n] d = vis_row L m W H mx n ?d"
    by simp
  have kd: "k < length ?d" using IH(1) assms by simp
  show ?case
    unfolding step using nth_vis_row[OF kd, of L m W H mx n] IH by (auto simp: less_Suc_eq)
qed

lemma visualizeFFT_byte:
  assumes "x < W" "y < H" "c < 4"
  shows "data (visualizeFFT L m W H mx) ! (4 * (y * W + x) + c) =
         (if c = 3 then 255 else intensity L (m ! shifted_index W H x y) mx)"
proof -
  define k where "k = 4 * (y * W + x) + c"
  have "y * W + x < y * W + W" using assms(1) by simp
  also have "\<dots> = (y + 1) * W" by simp
  also have "\<dots> \<le> H * W" using assms(2) by (intro mult_le_mono1) simp
  finally have klen: "k < length (replicate (4 * (W * H)) (0::int))"
    using assms(3) by (simp add: ac_simps k_def)
  have kd: "k div 4 = y * W + x" and km: "k mod 4 = c"
    unfolding k_def using assms(3) by presburger+
  have pm: "(y * W + x) mod W = x" "(y * W + x) div W = y" using assms(1) by simp_all
  have "data (visualizeFFT L m W H mx) ! k =
        (if k div 4 div W < H \<and> 0 < W
          then pixel_byte L m W H mx (k div 4) (k mod 4) else replicate (4 * (W * H)) 0 ! k)"
    unfolding visualizeFFT_def using rows_upto[OF klen, of L m W H mx H] by simp
  also have "\<dots> = pixel_byte L m W H mx (y * W + x) c"
    using assms(1,2) by (simp add: kd km pm)
  also have "\<dots> = (if c = 3 then 255 else intensity L (m ! shifted_index W H x y) mx)"
    using assms(1) by (simp add: pixel_byte_def)
  finally show ?thesis by (simp only: k_def)
qed

lemma length_visualizeFFT: "length (data (visualizeFFT L m W H mx)) = 4 * (W * H)"
proof -
  have "length (fold (vis_row L m W H mx) [0..<n] d) = length d" for n d
  proof (induction n)
    case (Suc n)
    have "length (fold (put_pixel L m W H mx n) [0..<j] d') = length d'" for d' j
      by (induction j) (simp_all add: length_put_pixel)
    then have "length (vis_row L m W H mx n d') = length d'" for d'
      unfolding vis_row_def by simp
    then show ?case using Suc by simp
  qed simp
  then show ?thesis by (simp add: visualizeFFT_def)
qed

lemma to_uint8_clamped_range: "0 \<le> to_uint8_clamped v \<and> to_uint8_clamped v \<le> 255"
  by (simp add: to_uint8_clamped_def)

lemma to_uint8_clamped_mono: "a \<le> b \<Longrightarrow> to_uint8_clamped a \<le> to_uint8_clamped b"
  by (simp add: to_uint8_clamped_def)

lemma Math_log_1: "Math_log L 1 = 0"
  using Math_log[of L] by simp

lemma Math_log_2: "0 < Math_log L 2"
  using Math_log[of L] by simp

lemma Math_log_mono: "1 \<le> x \<Longrightarrow> x \<le> y \<Longrightarrow> Math_log L x \<le> Math_log L y"
  using Math_log[of L] by simp

lemma Math_log_nonneg: "1 \<le> x \<Longrightarrow> 0 \<le> Math_log L x"
  using Math_log_mono[of 1 x L] by (simp add: Math_log_1)

lemma Math_log_sample: "Math_log sample_log = sample_log_fun"
  unfolding sample_log_def
  by (rule Abs_math_log_inverse) (simp add: sample_log_fun_def)

lemma fl_succ_ge_1: "0 \<le> m \<Longrightarrow> 1 \<le> fl (1 + m)"
  using fl_mono[of 1 "1 + m"] by (simp add: fl_1)

lemma intensity_range: "0 \<le> intensity L mag mx \<and> intensity L mag mx \<le> 255"
  by (simp add: intensity_def Let_def to_uint8_clamped_range)

lemma intensity_zero: "intensity L 0 mx = 0"
  by (simp add: intensity_def Let_def fl_1 Math_log_1 fl_0 to_uint8_clamped_def)

lemma intensity_value:
  assumes "0 \<le> mag" "mag \<le> mx"
  shows "intensity L mag mx =
           (if Math_log L (fl (1 + mx)) = 0 then 0
            else \<lfloor>fl (fl (Math_log L (fl (1 + mag)) / Math_log L (fl (1 + mx))) * 255)\<rfloor>)"
proof -
  define a where "a = Math_log L (fl (1 + mag))"
  define b where "b = Math_log L (fl (1 + mx))"
  have a0: "0 \<le> a" unfolding a_def by (rule Math_log_nonneg[OF fl_succ_ge_1[OF assms(1)]])
  have "fl (1 + mag) \<le> fl (1 + mx)" using assms(2) by (intro fl_mono) simp
  then have ab: "a \<le> b"
    unfolding a_def b_def by (rule Math_log_mono[OF fl_succ_ge_1[OF assms(1)]])
  show ?thesis
  proof (cases "b = 0")
    case True
    then have "a = 0" using a0 ab by simp
    then show ?thesis
      using True by (simp add: intensity_def Let_def a_def[symmetric] b_def[symmetric])
  next
    case False
    then have bpos: "0 < b" using a0 ab by simp
    have q0: "0 \<le> a / b" using a0 bpos by simp
    have q1: "a / b \<le> 1" using ab bpos by simp
    have f0: "0 \<le> fl (a / b)" using q0 by (rule fl_nonneg)
    have f1: "fl (a / b) \<le> 1" using fl_mono[OF q1] by (simp add: fl_1)
    have "0 \<le> fl (a / b) * 255" using f0 by simp
    then have g0: "0 \<le> fl (fl (a / b) * 255)" by (rule fl_nonneg)
    have "fl (a / b) * 255 \<le> 255" using f1 by simp
    then have g1: "fl (fl (a / b) * 255) \<le> 255" using fl_mono[of "fl (a / b) * 255" 255] by (simp add: fl_255)
    have h0: "0 \<le> \<lfloor>fl (fl (a / b) * 255)\<rfloor>" using g0 by simp
    have h1: "\<lfloor>fl (fl (a / b) * 255)\<rfloor> \<le> 255" using g1 by (simp add: floor_le_iff)
    show ?thesis
      using False h0 h1
      by (simp add: intensity_def Let_def a_def[symmetric] b_def[symmetric] to_uint8_clamped_def)
  qed
qed

lemma intensity_top:
  assumes "Math_log L (fl (1 + mx)) \<noteq> 0"
  shows "intensity L mx mx = 255"
  using assms by (simp add: intensity_def Let_def fl_1 fl_255 to_uint8_clamped_def)

lemma intensity_mono:
  assumes "0 \<le> mx" "0 \<le> m1" "m1 \<le> m2"
  shows "intensity L m1 mx \<le> intensity L m2 mx"
proof -
  define a1 where "a1 = Math_log L (fl (1 + m1))"
  define a2 where "a2 = Math_log L (fl (1 + m2))"
  define b where "b = Math_log L (fl (1 + mx))"
  have "fl (1 + m1) \<le> fl (1 + m2)" using assms(3) by (intro fl_mono) simp
  then have a12: "a1 \<le> a2"
    unfolding a1_def a2_def by (rule Math_log_mono[OF fl_succ_ge_1[OF assms(2)]])
  have b0: "0 \<le> b" unfolding b_def by (rule Math_log_nonneg[OF fl_succ_ge_1[OF assms(1)]])
  show ?thesis
  proof (cases "b = 0")
    case True
    then show ?thesis
      using a12 by (simp add: intensity_def Let_def a1_def[symmetric] a2_def[symmetric] b_def[symmetric])
  next
    case False
    then have bpos: "0 < b" using b0 by simp
    have "a1 / b \<le> a2 / b" using a12 bpos by (simp add: divide_right_mono)
    then have "fl (a1 / b) \<le> fl (a2 / b)" by (rule fl_mono)
    then have "fl (a1 / b) * 255 \<le> fl (a2 / b) * 255" by simp
    then have "fl (fl (a1 / b) * 255) \<le> fl (fl (a2 / b) * 255)" by (rule fl_mono)
    then have "\<lfloor>fl (fl (a1 / b) * 255)\<rfloor> \<le> \<lfloor>fl (fl (a2 / b) * 255)\<rfloor>" by (rule floor_mono)
    then show ?thesis
      using False
      by (simp add: intensity_def Let_def a1_def[symmetric] a2_def[symmetric] b_def[symmetric]
          to_uint8_clamped_mono)
  qed
qed

lemma shifted_index_less:
  assumes "x < W" "y < H"
  shows "shifted_index W H x y < W * H"
proof -
  have a: "(x + W div 2) mod W < W" using assms(1) by simp
  have b: "(y + H div 2) mod H < H" using assms(2) by simp
  have "(y + H div 2) mod H * W + (x + W div 2) mod W < (y + H div 2) mod H * W + W"
    using a by simp
  also have "\<dots> = ((y + H div 2) mod H + 1) * W" by simp
  also have "\<dots> \<le> H * W" using b by (intro mult_le_mono1) simp
  finally show ?thesis by (simp add: shifted_index_def Let_def ac_simps)
qed

lemma visualizeFFT_reads_shifted:
  assumes "x < W" and "y < H"
  shows "data (visualizeFFT L magnitude W H maxMag) ! (4 * (y * W + x)) =
           intensity L (magnitude ! ((y + H div 2) mod H * W + (x + W div 2) mod W)) maxMag
         \<and> (y + H div 2) mod H * W + (x + W div 2) mod W < W * H"
  using visualizeFFT_byte[OF assms, of 0 L magnitude maxMag] shifted_index_less[OF assms]
  by (simp add: shifted_index_def Let_def)

lemma pe_idx0: "pe_shifted_index 3 1 0 0 = 3"
  by code_simp
lemma pe_idx1: "pe_shifted_index 3 1 1 0 = 4"
  by code_simp
lemma pe_idx2: "pe_shifted_index 3 1 2 0 = 2"
  by code_simp
lemma pe_idx33: "pe_shifted_index 3 3 0 0 = 6"
  by code_simp
lemma pe_idx32: "pe_shifted_index 3 2 0 0 = 9/2"
  by code_simp

lemma pe_idx_Suc:
  "pe_shifted_index 3 (Suc 0) 0 0 = 3" "pe_shifted_index 3 (Suc 0) (Suc 0) 0 = 4"
  "pe_shifted_index 3 (Suc 0) 2 0 = 2"
  using pe_idx0 pe_idx1 pe_idx2 by simp_all

lemma upt3: "[0..<3] = [0, 1, 2]" by (simp add: upt_rec)

lemma list_update_numeral:
  "(x # xs)[numeral n := v] = x # xs[pred_numeral n := v]"
  by (simp add: numeral_eq_Suc)

section \<open>The transform of two points and the all-white 2-by-2 image\<close>

lemma pad_loop_2: "pad_loop 1 2 = 2"
  by (subst pad_loop.simps, simp, subst pad_loop.simps, simp)

lemma bitrev_carry_0_1: "bitrev_carry 0 (Suc 0) = (0, Suc 0)"
  by (subst bitrev_carry.simps) simp

lemma bitrev_loop_2: "bitrev_loop 2 1 0 [a, b] [c, d] = ([a, b], [c, d])"
  by (subst bitrev_loop.simps, simp add: bitrev_carry_0_1 drop_bit_eq_div,
      subst bitrev_loop.simps, simp)

lemma stages_loop_2: "stages_loop 2 2 ([a, b], [c, d]) = ([a + b, a - b], [c + d, c - d])"
  by (subst stages_loop.simps, simp, subst stages_loop.simps, simp,
      subst blocks_loop.simps, simp add: block_loop_def butterfly_def,
      subst blocks_loop.simps, simp)

lemma fft1D_2: "fft1D [a, b] [c, d] = ([a + b, a - b], [c + d, c - d])"
proof -
  have two: "Suc (Suc 0) = 2" by simp
  show ?thesis
    by (simp add: fft1D_def two pad_loop_2 bitrev_loop_2 stages_loop_2 del: One_nat_def)
qed

lemma upt2: "[0..<2] = [0, Suc 0]" by (simp add: upt_rec)

lemma upt4: "[0..<4] = [0, Suc 0, 2, 3]" by (simp add: upt_rec)

lemma fft2D_white: "fft2D [1, 1, 1, 1] 2 2 = ([4, 0, 0, 0], [0, 0, 0, 0])"
  by (simp add: fft2D_def fft_row_def fft_col_def upt2 upt4 fft1D_2 numeral_eq_Suc)

lemma get_white: "getImageData white2x2 0 0 2 2 = white2x2"
  by (simp add: getImageData_def white2x2_def pixels_def pixel_at_def upt2 numeral_eq_Suc)

lemma gray_white: "grayscale white2x2 = [1, 1, 1, 1]"
  by (simp add: grayscale_def white2x2_def upt4 numeral_eq_Suc)

lemma mag_white: "magnitude_spectrum ([4, 0, 0, 0], [0, 0, 0, 0]) 4 = [4, 0, 0, 0]"
proof -
  have "sqrt 16 = 4" using real_sqrt_abs[of 4] by simp
  then show ?thesis
    by (simp add: magnitude_spectrum_def upt4 numeral_eq_Suc)
qed

lemma max_white: "max_magnitude [4, 0, 0, 0] = 4"
  by (simp add: max_magnitude_def)

lemma log_5_pos: "Math_log L (fl (1 + 4)) \<noteq> 0"
proof -
  have "Math_log L 2 \<le> Math_log L 5" by (rule Math_log_mono) simp_all
  then show ?thesis using Math_log_2[of L] by (simp add: fl_5)
qed

lemma vis_white:
  "data (visualizeFFT L [4, 0, 0, 0] 2 2 4) =
     [0, 0, 0, 255, 0, 0, 0, 255, 0, 0, 0, 255, 255, 255, 255, 255]"
proof -
  have i0: "intensity L 0 4 = 0" by (rule intensity_zero)
  have i4: "intensity L 4 4 = 255" by (rule intensity_top) (rule log_5_pos)
  have s: "shifted_index 2 2 0 0 = 3" "shifted_index 2 2 (Suc 0) 0 = 2"
    "shifted_index 2 2 0 (Suc 0) = Suc 0" "shifted_index 2 2 (Suc 0) (Suc 0) = 0"
    by (simp_all add: shifted_index_def)
  have rep: "replicate 16 (0::int) = [0, 0, 0, 0, 0, 0, 0, 0, 0, 0, 0, 0, 0, 0, 0, 0]"
    by (simp add: numeral_eq_Suc)
  have q00: "put_pixel L [4, 0, 0, 0] 2 2 4 0 0 d = d[0 := 0, Suc 0 := 0, Suc (Suc 0) := 0, 3 := 255]" for d
    by (simp add: put_pixel_def s i0)
  have q01: "put_pixel L [4, 0, 0, 0] 2 2 4 0 (Suc 0) d = d[4 := 0, 5 := 0, 6 := 0, 7 := 255]" for d
    by (simp add: put_pixel_def s i0)
  have q10: "put_pixel L [4, 0, 0, 0] 2 2 4 (Suc 0) 0 d = d[8 := 0, 9 := 0, 10 := 0, 11 := 255]" for d
    by (simp add: put_pixel_def s i0)
  have q11: "put_pixel L [4, 0, 0, 0] 2 2 4 (Suc 0) (Suc 0) d = d[12 := 255, 13 := 255, 14 := 255, 15 := 255]" for d
    by (simp add: put_pixel_def s i4)
  show ?thesis
    by (simp add: visualizeFFT_def vis_row_def upt2 q00 q01 q10 q11 rep list_update_numeral)
qed


section \<open>Padding, lengths and the shape of \<open>fft1D\<close>\<close>

lemma pad_loop_pow2:
  "0 < N \<Longrightarrow> 2 ^ k < 2 * N \<Longrightarrow> pad_loop (2 ^ k) N = 2 ^ ceillog2 N"
proof (induction "N - 2 ^ k" arbitrary: k rule: less_induct)
  case less
  show ?case
  proof (cases "(2::nat) ^ k < N")
    case True
    have "pad_loop (2 ^ k) N = pad_loop (2 ^ Suc k) N"
      using True by (subst pad_loop.simps) (simp add: mult.commute)
    also have "\<dots> = 2 ^ ceillog2 N"
    proof (rule less.hyps)
      have "0 < (2::nat) ^ k" by simp
      moreover have "(2::nat) ^ Suc k = 2 ^ k + 2 ^ k" by simp
      ultimately show "N - 2 ^ Suc k < N - 2 ^ k" using True by linarith
    qed (use True less.prems in auto)
    finally show ?thesis .
  next
    case False
    then have "ceillog2 N = k"
      using less.prems by (intro ceillog2_eqI) auto
    then show ?thesis
      using False by (subst pad_loop.simps) simp
  qed
qed

lemma pad_loop_ceillog2: "0 < N \<Longrightarrow> pad_loop 1 N = 2 ^ ceillog2 N"
  using pad_loop_pow2[of N 0] by simp

lemma length_swap [simp]: "length (swap a i j) = length a"
  by (simp add: swap_def Let_def)

lemma length_bitrev_loop:
  "length (fst (bitrev_loop len i j re im)) = length re \<and>
   length (snd (bitrev_loop len i j re im)) = length im"
proof (induction len i j re im rule: bitrev_loop.induct)
  case (1 len i j re im)
  show ?case
  proof (cases "i < len")
    case False
    then show ?thesis by (subst (1 2) bitrev_loop.simps) simp
  next
    case True
    obtain j1 b where c: "bitrev_carry j (drop_bit 1 len) = (j1, b)" by force
    show ?thesis
    proof (cases "i < j1 XOR b")
      case T2: True
      have step: "bitrev_loop len i j re im =
                  bitrev_loop len (i + 1) (j1 XOR b) (swap re i (j1 XOR b)) (swap im i (j1 XOR b))"
        using True c T2 by (subst bitrev_loop.simps) (simp add: Let_def)
      show ?thesis
        unfolding step using "1.IH"(1)[OF True refl c[symmetric] refl T2] by simp
    next
      case F2: False
      have step: "bitrev_loop len i j re im = bitrev_loop len (i + 1) (j1 XOR b) re im"
        using True c F2 by (subst bitrev_loop.simps) (simp add: Let_def)
      show ?thesis
        unfolding step using "1.IH"(2)[OF True refl c[symmetric] refl F2] by simp
    qed
  qed
qed

lemma length_butterfly:
  "length (fst (butterfly ang h i j a)) = length (fst a) \<and>
   length (snd (butterfly ang h i j a)) = length (snd a)"
  by (cases a) (simp add: butterfly_def Let_def)

lemma length_block_loop:
  "length (fst (block_loop ang h i a)) = length (fst a) \<and>
   length (snd (block_loop ang h i a)) = length (snd a)"
proof -
  have "length (fst (fold (butterfly ang h i) [0..<n] a)) = length (fst a) \<and>
        length (snd (fold (butterfly ang h i) [0..<n] a)) = length (snd a)" for n
    by (induction n) (simp_all add: length_butterfly)
  then show ?thesis by (simp add: block_loop_def)
qed

lemma length_blocks_loop:
  "length (fst (blocks_loop len sz i a)) = length (fst a) \<and>
   length (snd (blocks_loop len sz i a)) = length (snd a)"
proof (induction len sz i a rule: blocks_loop.induct)
  case (1 len sz i a)
  show ?case
  proof (cases "0 < sz \<and> i < len")
    case True
    then show ?thesis
      using "1.IH" by (subst (1 2) blocks_loop.simps) (simp add: length_block_loop)
  next
    case False
    then show ?thesis by (subst (1 2) blocks_loop.simps) auto
  qed
qed

lemma length_stages_loop:
  "length (fst (stages_loop len sz a)) = length (fst a) \<and>
   length (snd (stages_loop len sz a)) = length (snd a)"
proof (induction len sz a rule: stages_loop.induct)
  case (1 len sz a)
  show ?case
  proof (cases "0 < sz \<and> sz \<le> len")
    case True
    then show ?thesis
      using "1.IH" by (subst (1 2) stages_loop.simps) (simp add: length_blocks_loop)
  next
    case False
    then show ?thesis by (subst (1 2) stages_loop.simps) auto
  qed
qed

lemma length_fft_inplace:
  "length (fst (fft_inplace re im)) = length re \<and> length (snd (fft_inplace re im)) = length im"
  unfolding fft_inplace_def
  using length_stages_loop[of "length re" 2 "bitrev_loop (length re) 1 0 re im"]
    length_bitrev_loop[of "length re" 1 0 re im] by simp

lemma fft_inplace_short:
  "length re \<le> 1 \<Longrightarrow> fft_inplace re im = (re, im)"
  unfolding fft_inplace_def
  by (subst bitrev_loop.simps, subst stages_loop.simps) simp

lemma fft1D_pads_and_truncates:
  assumes "length im = length re"
  shows "fft1D re im =
           (let N = length re; P = 2 ^ ceillog2 N;
                out = fft_inplace (re @ replicate (P - N) 0) (im @ replicate (P - N) 0)
            in (take N (fst out), take N (snd out)))
         \<and> length (fst (fft1D re im)) = length re
         \<and> length (snd (fft1D re im)) = length re"
proof -
  define N where "N = length re"
  define P :: nat where "P = 2 ^ ceillog2 N"
  define out where "out = fft_inplace (re @ replicate (P - N) 0) (im @ replicate (P - N) 0)"
  have NP: "N \<le> P" unfolding P_def by (rule le_two_power_ceillog2)
  have lo: "length (fst out) = P" "length (snd out) = P"
    using length_fft_inplace[of "re @ replicate (P - N) 0" "im @ replicate (P - N) 0"] NP assms
    by (simp_all add: out_def N_def)
  have main: "fft1D re im = (take N (fst out), take N (snd out))"
  proof (cases "N \<le> 1")
    case True
    then have "P = 1 \<or> N = P"
      unfolding P_def by (cases N) auto
    have "length (re @ replicate (P - N) 0) \<le> 1"
      using True NP by (cases "N = 0") (auto simp: P_def N_def)
    then have "out = (re @ replicate (P - N) 0, im @ replicate (P - N) 0)"
      unfolding out_def by (rule fft_inplace_short)
    then show ?thesis
      using True assms by (simp add: fft1D_def N_def)
  next
    case False
    then have pl: "pad_loop 1 N = P" unfolding P_def by (intro pad_loop_ceillog2) simp
    show ?thesis
    proof (cases "P = N")
      case True
      then have o: "out = fft_inplace re im" by (simp add: out_def)
      have "fft1D re im = fft_inplace re im"
        using False pl True
        by (simp add: fft1D_def N_def[symmetric] fft_inplace_def Let_def split: prod.splits)
      then show ?thesis using lo True o by (simp add: prod_eq_iff)
    next
      case F: False
      have ts: "typed_set (replicate P 0) re = re @ replicate (P - N) 0"
        "typed_set (replicate P 0) im = im @ replicate (P - N) 0"
        using assms by (simp_all add: typed_set_def N_def)
      have len: "length (re @ replicate (P - N) 0) = P" using NP by (simp add: N_def)
      show ?thesis
        using False pl F len
        by (simp add: fft1D_def N_def[symmetric] ts out_def fft_inplace_def Let_def
            split: prod.splits)
    qed
  qed
  show ?thesis
    using main lo NP by (simp add: Let_def N_def[symmetric] P_def[symmetric] out_def[symmetric])
qed

section \<open>Bit reversal\<close>

lemma bitrev_less: "bitrev k n < 2 ^ k"
proof (induction k arbitrary: n)
  case (Suc k)
  have "n mod 2 = 0 \<or> n mod 2 = 1" by arith
  then have a: "2 ^ k * (n mod 2) \<le> 2 ^ k" by auto
  have b: "bitrev k (n div 2) < 2 ^ k" by (rule Suc.IH)
  have "bitrev (Suc k) n = 2 ^ k * (n mod 2) + bitrev k (n div 2)" by simp
  also have "\<dots> < 2 ^ k + 2 ^ k" using a b by linarith
  finally show ?case by simp
qed simp

text \<open>Reversal of a number with an extra top bit.\<close>

lemma bitrev_add_top:
  "n < 2 ^ k \<Longrightarrow> bitrev (Suc k) (n + c * 2 ^ k) = 2 * bitrev k n + c mod 2"
proof (induction k arbitrary: n)
  case 0
  then show ?case by simp
next
  case (Suc k)
  have e: "c * 2 ^ Suc k = 2 * (c * 2 ^ k)" by simp
  have m: "(n + c * 2 ^ Suc k) mod 2 = n mod 2" unfolding e by simp
  have d: "(n + c * 2 ^ Suc k) div 2 = n div 2 + c * 2 ^ k" unfolding e by simp
  have lt: "n div 2 < 2 ^ k" using Suc.prems by simp
  have "bitrev (Suc (Suc k)) (n + c * 2 ^ Suc k) =
        2 ^ Suc k * (n mod 2) + bitrev (Suc k) (n div 2 + c * 2 ^ k)"
    by (simp only: bitrev.simps m d)
  also have "\<dots> = 2 ^ Suc k * (n mod 2) + (2 * bitrev k (n div 2) + c mod 2)"
    by (simp only: Suc.IH[OF lt])
  also have "\<dots> = 2 * bitrev (Suc k) n + c mod 2" by simp
  finally show ?case .
qed

lemma bitrev_involution: "n < 2 ^ k \<Longrightarrow> bitrev k (bitrev k n) = n"
proof (induction k arbitrary: n)
  case 0
  then show ?case by simp
next
  case (Suc k)
  have lt: "bitrev k (n div 2) < 2 ^ k" by (rule bitrev_less)
  have nd: "n div 2 < 2 ^ k" using Suc.prems by simp
  have "bitrev (Suc k) (bitrev (Suc k) n) =
        bitrev (Suc k) (bitrev k (n div 2) + (n mod 2) * 2 ^ k)"
    by (simp add: ac_simps)
  also have "\<dots> = 2 * bitrev k (bitrev k (n div 2)) + (n mod 2) mod 2"
    by (rule bitrev_add_top[OF lt])
  also have "\<dots> = 2 * (n div 2) + n mod 2"
    by (simp add: Suc.IH[OF nd])
  also have "\<dots> = n" by simp
  finally show ?case .
qed

lemma bitrev_eq_0_iff: "n < 2 ^ k \<Longrightarrow> bitrev k n = 0 \<longleftrightarrow> n = 0"
proof
  assume a: "n < 2 ^ k" "bitrev k n = 0"
  have "bitrev k (bitrev k n) = n" by (rule bitrev_involution[OF a(1)])
  moreover have "bitrev k 0 = 0" by (induction k) simp_all
  ultimately show "n = 0" using a(2) by simp
next
  assume "n = 0"
  then show "bitrev k n = 0" by (induction k) simp_all
qed

lemma bitrev_inj: "n < 2 ^ k \<Longrightarrow> m < 2 ^ k \<Longrightarrow> bitrev k n = bitrev k m \<Longrightarrow> n = m"
  by (metis bitrev_involution)

section \<open>The carry loop of the bit-reversed counter\<close>

lemma and_pow2_zero: "r < 2 ^ k \<Longrightarrow> (r::nat) AND 2 ^ k = 0"
  by (simp add: and_exp_eq_0_iff_not_bit bit_nat_def)

lemma xor_pow2_add: "r < 2 ^ k \<Longrightarrow> (r::nat) XOR 2 ^ k = r + 2 ^ k"
  using disjunctive_add_eq_xor[OF and_pow2_zero, of r k] by simp

lemma and_pow2_top: "r < 2 ^ k \<Longrightarrow> (2 ^ k + r :: nat) AND 2 ^ k \<noteq> 0"
  by (simp add: and_exp_eq_0_iff_not_bit bit_nat_def)

lemma xor_pow2_top: "r < 2 ^ k \<Longrightarrow> (2 ^ k + r :: nat) XOR 2 ^ k = r"
proof -
  assume r: "r < 2 ^ k"
  have "(2 ^ k + r) XOR 2 ^ k = (r XOR 2 ^ k) XOR 2 ^ k"
    using xor_pow2_add[OF r] by (simp add: add.commute)
  also have "\<dots> = r" by (simp add: xor.assoc)
  finally show ?thesis .
qed

lemma bitrev_carry_next:
  "Suc n < 2 ^ k \<Longrightarrow>
   \<exists>j1 b. bitrev_carry (bitrev k n) (2 ^ k div 2) = (j1, b) \<and> j1 XOR b = bitrev k (Suc n)"
proof (induction k arbitrary: n)
  case 0
  then show ?case by simp
next
  case (Suc k)
  define r where "r = bitrev k (n div 2)"
  have r: "r < 2 ^ k" unfolding r_def by (rule bitrev_less)
  have half: "(2::nat) ^ Suc k div 2 = 2 ^ k" by simp
  show ?case
  proof (cases "even n")
    case True
    then have cur: "bitrev (Suc k) n = r" by (simp add: r_def)
    have "Suc n mod 2 = 1" "Suc n div 2 = n div 2" using True by presburger+
    then have nxt: "bitrev (Suc k) (Suc n) = 2 ^ k + r"
      by (simp add: r_def)
    have "bitrev_carry r (2 ^ k) = (r, 2 ^ k)"
      by (subst bitrev_carry.simps) (simp add: and_pow2_zero[OF r])
    then show ?thesis
      unfolding half cur nxt using xor_pow2_add[OF r] by simp
  next
    case False
    have n1: "n mod 2 = 1" using False by presburger
    have cur: "bitrev (Suc k) n = 2 ^ k + r" by (simp add: r_def n1)
    have sd: "Suc n div 2 = Suc (n div 2)" and sm: "Suc n mod 2 = 0" using False by presburger+
    have nxt: "bitrev (Suc k) (Suc n) = bitrev k (Suc (n div 2))"
      by (simp add: sd sm)
    have "Suc n < 2 * 2 ^ k" using Suc.prems by simp
    then have lt: "Suc (n div 2) < 2 ^ k" using sd by linarith
    obtain j1 b where c: "bitrev_carry r (2 ^ k div 2) = (j1, b)"
      and x: "j1 XOR b = bitrev k (Suc (n div 2))"
      using Suc.IH[OF lt] unfolding r_def by blast
    have "bitrev_carry (2 ^ k + r) (2 ^ k) = bitrev_carry r (2 ^ k div 2)"
      by (subst bitrev_carry.simps)
         (simp add: and_pow2_top[OF r] xor_pow2_top[OF r] drop_bit_eq_div)
    then show ?thesis
      unfolding half cur nxt using c x by simp
  qed
qed

section \<open>The permutation loop\<close>

lemma nth_swap:
  "i < length a \<Longrightarrow> j < length a \<Longrightarrow> t < length a \<Longrightarrow>
   swap a i j ! t = (if t = j then a ! i else if t = i then a ! j else a ! t)"
  by (simp add: swap_def Let_def nth_list_update)

lemma partial_rev_init: "length a = 2 ^ k \<Longrightarrow> partial_rev k 1 a a"
  unfolding partial_rev_def
proof (intro conjI allI impI)
  fix t :: nat assume len: "length a = 2 ^ k" and t: "t < 2 ^ k"
  have "t < 1 \<or> bitrev k t < 1 \<Longrightarrow> bitrev k t = t"
    using bitrev_eq_0_iff[OF t] by auto
  then show "a ! t = (if t < 1 \<or> bitrev k t < 1 then a ! bitrev k t else a ! t)"
    by auto
qed

lemma partial_rev_step:
  assumes pr: "partial_rev k i orig a" and i: "i < 2 ^ k" and j: "j = bitrev k i"
  shows "partial_rev k (Suc i) orig (if i < j then swap a i j else a)"
proof -
  have len: "length a = 2 ^ k" using pr by (simp add: partial_rev_def)
  have val: "\<And>t. t < 2 ^ k \<Longrightarrow>
      a ! t = (if t < i \<or> bitrev k t < i then orig ! bitrev k t else orig ! t)"
    using pr by (simp add: partial_rev_def)
  have jlt: "j < 2 ^ k" unfolding j by (rule bitrev_less)
  have rj: "bitrev k j = i" unfolding j by (rule bitrev_involution[OF i])
  have uniq: "\<And>t. t < 2 ^ k \<Longrightarrow> bitrev k t = i \<Longrightarrow> t = j"
    using bitrev_involution j by metis
  show ?thesis
    unfolding partial_rev_def
  proof (intro conjI allI impI)
    show "length (if i < j then swap a i j else a) = 2 ^ k" using len by simp
  next
    fix t :: nat assume t: "t < 2 ^ k"
    let ?a' = "if i < j then swap a i j else a"
    show "?a' ! t = (if t < Suc i \<or> bitrev k t < Suc i then orig ! bitrev k t else orig ! t)"
    proof (cases "i < j")
      case True
      have ai: "a ! i = orig ! i" using val[OF i] True j by simp
      have aj: "a ! j = orig ! j" using val[OF jlt] True rj by simp
      have sw: "?a' ! t = (if t = j then a ! i else if t = i then a ! j else a ! t)"
        using True nth_swap[of i a j t] i jlt t len by simp
      consider "t = i" | "t = j" | "t \<noteq> i" "t \<noteq> j" by blast
      then show ?thesis
      proof cases
        case 1
        then show ?thesis using sw aj True j by simp
      next
        case 2
        then show ?thesis using sw ai rj by simp
      next
        case 3
        then have "bitrev k t \<noteq> i" using uniq[OF t] by blast
        then have "(t < Suc i \<or> bitrev k t < Suc i) \<longleftrightarrow> (t < i \<or> bitrev k t < i)"
          using 3 by (auto simp: less_Suc_eq)
        then show ?thesis using sw 3 val[OF t] by simp
      qed
    next
      case False
      then have a': "?a' = a" by simp
      consider "t = i" | "t \<noteq> i" "t = j" | "t \<noteq> i" "t \<noteq> j" by blast
      then show ?thesis
      proof cases
        case 1
        then show ?thesis using val[OF i] False j by (auto simp: a')
      next
        case 2
        then have "j < i" using False by simp
        then show ?thesis using val[OF jlt] 2 rj by (simp add: a')
      next
        case 3
        then have "bitrev k t \<noteq> i" using uniq[OF t] by blast
        then have "(t < Suc i \<or> bitrev k t < Suc i) \<longleftrightarrow> (t < i \<or> bitrev k t < i)"
          using 3 by (auto simp: less_Suc_eq)
        then show ?thesis using 3 val[OF t] by (simp add: a')
      qed
    qed
  qed
qed

lemma bitrev_loop_correct:
  assumes "1 \<le> i" and "i \<le> 2 ^ k" and "j = bitrev k (i - 1)"
    and "partial_rev k i re0 re" and "partial_rev k i im0 im"
  shows "partial_rev k (2 ^ k) re0 (fst (bitrev_loop (2 ^ k) i j re im)) \<and>
         partial_rev k (2 ^ k) im0 (snd (bitrev_loop (2 ^ k) i j re im))"
  using assms
proof (induction "2 ^ k - i" arbitrary: i j re im rule: less_induct)
  case less
  show ?case
  proof (cases "i < 2 ^ k")
    case False
    then have "i = 2 ^ k" using less.prems(2) by simp
    then show ?thesis
      using less.prems(4,5) by (subst (1 2) bitrev_loop.simps) simp
  next
    case True
    have "Suc (i - 1) < 2 ^ k" using True less.prems(1) by simp
    from bitrev_carry_next[OF this]
    obtain j1 b where c: "bitrev_carry j (2 ^ k div 2) = (j1, b)"
      and x: "j1 XOR b = bitrev k i"
      using less.prems(1,3) by auto
    define j2 where "j2 = bitrev k i"
    define re' where "re' = (if i < j2 then swap re i j2 else re)"
    define im' where "im' = (if i < j2 then swap im i j2 else im)"
    have step: "bitrev_loop (2 ^ k) i j re im = bitrev_loop (2 ^ k) (Suc i) j2 re' im'"
      using True c x
      by (subst bitrev_loop.simps)
         (simp add: Let_def drop_bit_eq_div j2_def re'_def im'_def)
    have pr: "partial_rev k (Suc i) re0 re'" "partial_rev k (Suc i) im0 im'"
      unfolding re'_def im'_def
      using partial_rev_step[OF less.prems(4) True j2_def]
        partial_rev_step[OF less.prems(5) True j2_def] by simp_all
    show ?thesis
      unfolding step
      by (rule less.hyps) (use True pr in \<open>simp_all add: j2_def\<close>)
  qed
qed

lemma bitrev_loop_permutes:
  assumes "length re = 2 ^ k" and "length im = 2 ^ k" and "t < 2 ^ k"
  shows "cvec (bitrev_loop (2 ^ k) 1 0 re im) t = cvec (re, im) (bitrev k t)"
proof -
  have z: "0 = bitrev k (1 - 1)" by (induction k) simp_all
  have "partial_rev k (2 ^ k) re (fst (bitrev_loop (2 ^ k) 1 0 re im)) \<and>
        partial_rev k (2 ^ k) im (snd (bitrev_loop (2 ^ k) 1 0 re im))"
    by (rule bitrev_loop_correct[OF _ _ z])
       (use assms partial_rev_init[of re k] partial_rev_init[of im k] in simp_all)
  then show ?thesis
    using assms(3) by (simp add: partial_rev_def cvec_def)
qed

section \<open>Butterflies and blocks\<close>

lemma cvec_butterfly:
  assumes "i + j + h < length re" "length im = length re" "0 < h"
  shows "cvec (butterfly ang h i j (re, im)) p =
     (if p = i + j then cvec (re, im) (i + j) + cis (ang * real j) * cvec (re, im) (i + j + h)
      else if p = i + j + h
           then cvec (re, im) (i + j) - cis (ang * real j) * cvec (re, im) (i + j + h)
      else cvec (re, im) p)"
proof -
  have k: "i + j < length re" "i + j < length im" "i + j + h < length im"
    using assms by simp_all
  have ne: "i + j \<noteq> i + j + h" using assms(3) by simp
  consider "p = i + j" | "p = i + j + h" | "p \<noteq> i + j" "p \<noteq> i + j + h" by blast
  then show ?thesis
  proof cases
    case 1
    then show ?thesis
      using k ne assms(1)
      by (simp add: butterfly_def cvec_def Let_def complex_eq_iff algebra_simps)
  next
    case 2
    then show ?thesis
      using k ne assms(1,3)
      by (simp add: butterfly_def cvec_def Let_def complex_eq_iff algebra_simps)
  next
    case 3
    then show ?thesis
      by (simp add: butterfly_def cvec_def Let_def)
  qed
qed

lemma length_fold_butterfly:
  "length (fst (fold (butterfly ang h i) [0..<n] a)) = length (fst a) \<and>
   length (snd (fold (butterfly ang h i) [0..<n] a)) = length (snd a)"
  by (induction n) (simp_all add: length_butterfly)

lemma cvec_block_upto:
  assumes "i + 2 * h \<le> length (fst a)" "length (snd a) = length (fst a)" "n \<le> h"
  shows "cvec (fold (butterfly ang h i) [0..<n] a) p =
    (if i \<le> p \<and> p < i + n then cvec a p + cis (ang * real (p - i)) * cvec a (p + h)
     else if i + h \<le> p \<and> p < i + h + n
          then cvec a (p - h) - cis (ang * real (p - h - i)) * cvec a p
     else cvec a p)"
  using assms(3)
proof (induction n arbitrary: p)
  case 0
  have "\<not> (i \<le> p \<and> p < i + 0)" "\<not> (i + h \<le> p \<and> p < i + h + 0)" by auto
  then show ?case by (simp only: if_False upt_0 fold_Nil id_apply) 
next
  case (Suc n)
  define b where "b = fold (butterfly ang h i) [0..<n] a"
  have IH: "\<And>q. cvec b q =
    (if i \<le> q \<and> q < i + n then cvec a q + cis (ang * real (q - i)) * cvec a (q + h)
     else if i + h \<le> q \<and> q < i + h + n
          then cvec a (q - h) - cis (ang * real (q - h - i)) * cvec a q
     else cvec a q)"
    unfolding b_def using Suc by simp
  have lb: "length (fst b) = length (fst a)" "length (snd b) = length (fst a)"
    unfolding b_def using length_fold_butterfly[of ang h i n a] assms(2) by simp_all
  have hpos: "0 < h" and nh: "n < h" using Suc.prems by simp_all
  have inr: "i + n + h < length (fst b)" using assms(1) nh lb by simp
  have step: "fold (butterfly ang h i) [0..<Suc n] a = butterfly ang h i n (fst b, snd b)"
    by (simp add: b_def)
  have bf: "cvec (butterfly ang h i n (fst b, snd b)) p =
     (if p = i + n then cvec b (i + n) + cis (ang * real n) * cvec b (i + n + h)
      else if p = i + n + h
           then cvec b (i + n) - cis (ang * real n) * cvec b (i + n + h)
      else cvec b p)"
    using cvec_butterfly[OF inr _ hpos, of "snd b" ang p] lb by simp
  have b1: "cvec b (i + n) = cvec a (i + n)" using IH[of "i + n"] nh by simp
  have b2: "cvec b (i + n + h) = cvec a (i + n + h)" using IH[of "i + n + h"] nh by simp
  consider "p = i + n" | "p = i + n + h" | "p \<noteq> i + n" "p \<noteq> i + n + h" by blast
  then show ?case
  proof cases
    case 1
    then show ?thesis unfolding step bf using b1 b2 by (simp add: add.assoc)
  next
    case 2
    then show ?thesis unfolding step bf using b1 b2 hpos nh by (simp add: add.assoc)
  next
    case 3
    then have "(i \<le> p \<and> p < i + Suc n) \<longleftrightarrow> (i \<le> p \<and> p < i + n)"
      "(i + h \<le> p \<and> p < i + h + Suc n) \<longleftrightarrow> (i + h \<le> p \<and> p < i + h + n)"
      by auto
    then show ?thesis unfolding step bf using 3 IH[of p] by simp
  qed
qed

lemma cvec_block_loop:
  assumes "i + 2 * h \<le> length (fst a)" "length (snd a) = length (fst a)"
  shows "cvec (block_loop ang h i a) p =
    (if i \<le> p \<and> p < i + h then cvec a p + cis (ang * real (p - i)) * cvec a (p + h)
     else if i + h \<le> p \<and> p < i + 2 * h
          then cvec a (p - h) - cis (ang * real (p - h - i)) * cvec a p
     else cvec a p)"
  unfolding block_loop_def using cvec_block_upto[OF assms order_refl, of ang p]
  by (simp add: mult_2)

section \<open>One pass over all blocks\<close>

lemma cvec_blocks_loop:
  assumes "0 < h" and "(2 * h) dvd len" and "(2 * h) dvd i0"
    and "length (fst a) = len" and "length (snd a) = len" and "p < len"
  shows "cvec (blocks_loop len (2 * h) i0 a) p =
         (if i0 \<le> p then dit_stage h (cvec a) p else cvec a p)"
  using assms(3,4,5)
proof (induction "len - i0" arbitrary: i0 a rule: less_induct)
  case less
  show ?case
  proof (cases "i0 < len")
    case False
    then show ?thesis
      using assms(6) by (subst blocks_loop.simps) simp
  next
    case True
    obtain c where c: "i0 = 2 * h * c" using less.prems(1) by (auto simp: dvd_def)
    obtain d where d: "len = 2 * h * d" using assms(2) by (auto simp: dvd_def)
    have "c < d" using True assms(1) unfolding c d by simp
    then have "Suc c \<le> d" by simp
    then have "2 * h * Suc c \<le> 2 * h * d" by (rule mult_le_mono2)
    then have fit: "i0 + 2 * h \<le> len" unfolding c d by simp
    define a1 where "a1 = block_loop (- 2 * pi / real (2 * h)) h i0 a"
    have l1: "length (fst a1) = len" "length (snd a1) = len"
      unfolding a1_def using length_block_loop[of "- 2 * pi / real (2 * h)" h i0 a] less.prems
      by simp_all
    have step: "blocks_loop len (2 * h) i0 a = blocks_loop len (2 * h) (i0 + 2 * h) a1"
      using True assms(1) by (subst blocks_loop.simps) (simp add: a1_def)
    have a1v: "\<And>q. cvec a1 q =
      (if i0 \<le> q \<and> q < i0 + h
       then cvec a q + cis (- 2 * pi / real (2 * h) * real (q - i0)) * cvec a (q + h)
       else if i0 + h \<le> q \<and> q < i0 + 2 * h
            then cvec a (q - h) - cis (- 2 * pi / real (2 * h) * real (q - h - i0)) * cvec a q
       else cvec a q)"
      unfolding a1_def
      by (rule cvec_block_loop) (use fit less.prems in simp_all)
    have IH: "cvec (blocks_loop len (2 * h) (i0 + 2 * h) a1) p =
              (if i0 + 2 * h \<le> p then dit_stage h (cvec a1) p else cvec a1 p)"
      by (rule less.hyps) (use True assms(1) less.prems(1) l1 in auto)
    show ?thesis
    proof (cases "i0 + 2 * h \<le> p")
      case far: True
      have pm: "p mod (2 * h) \<le> p - (i0 + 2 * h)"
      proof -
        have "(p - (i0 + 2 * h)) mod (2 * h) = p mod (2 * h)"
          using far unfolding c
          by (metis add.commute le_add_diff_inverse mod_mult_self4 mult_Suc_right)
        then show ?thesis by (metis mod_less_eq_dividend)
      qed
      have same: "cvec a1 p = cvec a p" using a1v[of p] far by simp
      show ?thesis
      proof (cases "p mod (2 * h) < h")
        case lo: True
        have "cvec a1 (p + h) = cvec a (p + h)" using a1v[of "p + h"] far by simp
        then show ?thesis
          unfolding step IH using far lo same by (simp add: dit_stage_def)
      next
        case hi: False
        then have "h \<le> p mod (2 * h)" by simp
        then have "i0 + 2 * h \<le> p - h" using pm far by linarith
        then have "cvec a1 (p - h) = cvec a (p - h)" using a1v[of "p - h"] by simp
        then show ?thesis
          unfolding step IH using far hi same by (simp add: dit_stage_def)
      qed
    next
      case near: False
      show ?thesis
      proof (cases "i0 \<le> p")
        case False
        then show ?thesis unfolding step IH using near a1v[of p] by simp
      next
        case inb: True
        have pm: "p mod (2 * h) = p - i0"
        proof -
          have "p = (p - i0) + 2 * h * c" using inb c by simp
          then have "p mod (2 * h) = (p - i0) mod (2 * h)"
            by (metis mod_mult_self2)
          moreover have "p - i0 < 2 * h" using near inb by linarith
          ultimately show ?thesis by simp
        qed
        show ?thesis
        proof (cases "p < i0 + h")
          case True
          then have "p mod (2 * h) < h" using pm inb by linarith
          then show ?thesis
            unfolding step IH using near inb True a1v[of p] pm by (simp add: dit_stage_def)
        next
          case False
          then have nlt: "\<not> p mod (2 * h) < h" using pm inb by linarith
          have "p mod (2 * h) - h = p - h - i0" using pm by simp
          then show ?thesis
            unfolding step IH using near inb False nlt a1v[of p] by (simp add: dit_stage_def)
        qed
      qed
    qed
  qed
qed

section \<open>Splitting a transform into its even and odd halves\<close>

lemma sum_even_odd:
  fixes g :: "nat \<Rightarrow> complex"
  shows "(\<Sum>t<2 * n. g t) = (\<Sum>t<n. g (2 * t)) + (\<Sum>t<n. g (2 * t + 1))"
  by (induction n) (simp_all add: algebra_simps)

lemma cis_sub_turns: "cis (x - 2 * pi * real t) = cis x"
proof -
  have "cis (x - 2 * pi * real t) = cis x * cis (2 * pi * (- real t))"
    by (simp add: cis_mult)
  also have "cis (2 * pi * (- real t)) = 1"
    by (rule cis_multiple_2pi) simp
  finally show ?thesis by simp
qed

lemma cis_sub_pi: "cis (x - pi) = - cis x"
proof -
  have "cis (x - pi) = cis x * cis (- pi)" by (simp add: cis_mult)
  also have "cis (- pi) = - 1" by (simp add: complex_eq_iff)
  finally show ?thesis by simp
qed

lemma DFT_lower:
  assumes "0 < n"
  shows "DFT (2 * n) f j =
         DFT n (\<lambda>t. f (2 * t)) j
         + cis (- 2 * pi * real j / real (2 * n)) * DFT n (\<lambda>t. f (2 * t + 1)) j"
proof -
  have ev: "cis (- 2 * pi * real j * real (2 * t) / real (2 * n)) =
            cis (- 2 * pi * real j * real t / real n)" for t
  proof -
    have "- 2 * pi * real j * real (2 * t) / real (2 * n) =
          - 2 * pi * real j * real t / real n"
      using assms by (simp add: field_simps)
    then show ?thesis by (simp only:)
  qed
  have od: "cis (- 2 * pi * real j * real (2 * t + 1) / real (2 * n)) =
            cis (- 2 * pi * real j / real (2 * n)) * cis (- 2 * pi * real j * real t / real n)" for t
  proof -
    have "- 2 * pi * real j * real (2 * t + 1) / real (2 * n) =
          - 2 * pi * real j / real (2 * n) + - 2 * pi * real j * real t / real n"
      using assms by (simp add: field_simps)
    then show ?thesis by (simp only: cis_mult)
  qed
  show ?thesis
    unfolding DFT_def sum_even_odd ev od
    by (simp add: sum_distrib_left mult_ac)
qed

lemma DFT_upper:
  assumes "0 < n"
  shows "DFT (2 * n) f (j + n) =
         DFT n (\<lambda>t. f (2 * t)) j
         - cis (- 2 * pi * real j / real (2 * n)) * DFT n (\<lambda>t. f (2 * t + 1)) j"
proof -
  have ev: "cis (- 2 * pi * real (j + n) * real (2 * t) / real (2 * n)) =
            cis (- 2 * pi * real j * real t / real n)" for t
  proof -
    have "- 2 * pi * real (j + n) * real (2 * t) / real (2 * n) =
          - 2 * pi * real j * real t / real n - 2 * pi * real t"
      using assms by (simp add: field_simps)
    then show ?thesis by (simp only: cis_sub_turns)
  qed
  have od: "cis (- 2 * pi * real (j + n) * real (2 * t + 1) / real (2 * n)) =
            - (cis (- 2 * pi * real j / real (2 * n)) * cis (- 2 * pi * real j * real t / real n))" for t
  proof -
    have "- 2 * pi * real (j + n) * real (2 * t + 1) / real (2 * n) =
          (- 2 * pi * real j / real (2 * n) + - 2 * pi * real j * real t / real n)
            - 2 * pi * real t - pi"
      using assms by (simp add: field_simps)
    then show ?thesis by (simp only: cis_sub_pi cis_sub_turns cis_mult)
  qed
  show ?thesis
    unfolding DFT_def sum_even_odd ev od
    by (simp add: sum_distrib_left sum_negf mult_ac)
qed

section \<open>The passes compute the transform\<close>

lemma stage_step:
  assumes inv: "stage_inv m (Suc q) x A"
    and st: "\<And>p. p < 2 ^ (m + Suc q) \<Longrightarrow> A' p = dit_stage (2 ^ m) A p"
  shows "stage_inv (Suc m) q x A'"
  unfolding stage_inv_def
proof (intro allI impI)
  fix b j :: nat
  assume b: "b < 2 ^ q" and j: "j < 2 ^ Suc m"
  define h :: nat where "h = 2 ^ m"
  define r where "r = bitrev q b"
  define z where "z = (\<lambda>t. x (t * 2 ^ q + r))"
  define p where "p = b * 2 ^ Suc m + j"
  have hpos: "0 < h" by (simp add: h_def)
  have j2: "j < 2 * h" using j by (simp add: h_def)
  have pb: "p = b * (2 * h) + j" by (simp add: p_def h_def)
  have "b * (2 * h) + j < b * (2 * h) + 2 * h" using j2 by simp
  also have "\<dots> = Suc b * (2 * h)" by simp
  also have "\<dots> \<le> 2 ^ q * (2 * h)" using b by (intro mult_le_mono1) simp
  also have "\<dots> = 2 ^ (m + Suc q)" by (simp add: h_def power_add)
  finally have plt: "p < 2 ^ (m + Suc q)" by (simp add: pb)
  have pm: "p mod (2 * h) = j" using j2 by (simp add: pb)
  have b0: "2 * b < 2 ^ Suc q" and b1: "2 * b + 1 < 2 ^ Suc q" using b by simp_all
  have fe: "(\<lambda>t. x (t * 2 ^ Suc q + bitrev (Suc q) (2 * b))) = (\<lambda>t. z (2 * t))"
  proof (rule ext)
    fix t :: nat
    have "bitrev (Suc q) (2 * b) = r" by (simp add: r_def)
    moreover have "t * 2 ^ Suc q = 2 * t * 2 ^ q" by simp
    ultimately show "x (t * 2 ^ Suc q + bitrev (Suc q) (2 * b)) = z (2 * t)"
      by (simp only: z_def)
  qed
  have fo: "(\<lambda>t. x (t * 2 ^ Suc q + bitrev (Suc q) (2 * b + 1))) = (\<lambda>t. z (2 * t + 1))"
  proof (rule ext)
    fix t :: nat
    have "(2 * b + 1) mod 2 = 1" "(2 * b + 1) div 2 = b" by presburger+
    then have "bitrev (Suc q) (2 * b + 1) = 2 ^ q + r" by (simp add: r_def)
    moreover have "t * 2 ^ Suc q + (2 ^ q + r) = (2 * t + 1) * 2 ^ q + r"
      by (simp add: algebra_simps)
    ultimately show "x (t * 2 ^ Suc q + bitrev (Suc q) (2 * b + 1)) = z (2 * t + 1)"
      by (simp only: z_def)
  qed
  have ev: "\<And>i. i < h \<Longrightarrow> A (2 * b * h + i) = DFT h (\<lambda>t. z (2 * t)) i"
  proof -
    fix i assume "i < h"
    then have "A (2 * b * 2 ^ m + i) =
               DFT (2 ^ m) (\<lambda>t. x (t * 2 ^ Suc q + bitrev (Suc q) (2 * b))) i"
      using inv b0 unfolding stage_inv_def h_def by blast
    then show "A (2 * b * h + i) = DFT h (\<lambda>t. z (2 * t)) i"
      by (simp only: fe h_def)
  qed
  have od: "\<And>i. i < h \<Longrightarrow> A ((2 * b + 1) * h + i) = DFT h (\<lambda>t. z (2 * t + 1)) i"
  proof -
    fix i assume "i < h"
    then have "A ((2 * b + 1) * 2 ^ m + i) =
               DFT (2 ^ m) (\<lambda>t. x (t * 2 ^ Suc q + bitrev (Suc q) (2 * b + 1))) i"
      using inv b1 unfolding stage_inv_def h_def by blast
    then show "A ((2 * b + 1) * h + i) = DFT h (\<lambda>t. z (2 * t + 1)) i"
      by (simp only: fo h_def)
  qed
  have tw: "\<And>i. cis (- 2 * pi / real (2 * h) * real i) = cis (- 2 * pi * real i / real (2 * h))"
    by simp
  have goal: "A' p = DFT (2 * h) z j"
  proof (cases "j < h")
    case True
    have "A' p = A p + cis (- 2 * pi / real (2 * h) * real j) * A (p + h)"
      using st[OF plt] True pm by (simp add: dit_stage_def h_def)
    also have "A p = DFT h (\<lambda>t. z (2 * t)) j"
      using ev[OF True] by (simp add: pb algebra_simps)
    also have "A (p + h) = DFT h (\<lambda>t. z (2 * t + 1)) j"
      using od[OF True] by (simp add: pb algebra_simps)
    finally show ?thesis
      unfolding tw using DFT_lower[OF hpos, of z j] by simp
  next
    case False
    define i where "i = j - h"
    have i: "i < h" and ji: "j = i + h" using False j2 by (simp_all add: i_def)
    have "A' p = A (p - h) - cis (- 2 * pi / real (2 * h) * real i) * A p"
      using st[OF plt] False pm by (simp add: dit_stage_def h_def i_def)
    also have "A (p - h) = DFT h (\<lambda>t. z (2 * t)) i"
      using ev[OF i] by (simp add: pb ji algebra_simps)
    also have "A p = DFT h (\<lambda>t. z (2 * t + 1)) i"
      using od[OF i] by (simp add: pb ji algebra_simps)
    finally show ?thesis
      unfolding tw ji using DFT_upper[OF hpos, of z i] by simp
  qed
  show "A' (b * 2 ^ Suc m + j) = DFT (2 ^ Suc m) (\<lambda>t. x (t * 2 ^ q + bitrev q b)) j"
    using goal by (simp add: p_def h_def z_def r_def)
qed

lemma stages_loop_correct:
  assumes "stage_inv m q x (cvec a)"
    and "length (fst a) = 2 ^ (m + q)" and "length (snd a) = 2 ^ (m + q)"
  shows "stage_inv (m + q) 0 x (cvec (stages_loop (2 ^ (m + q)) (2 ^ Suc m) a))"
  using assms
proof (induction q arbitrary: m a)
  case 0
  have "\<not> (2::nat) ^ Suc m \<le> 2 ^ m" by simp
  then have "stages_loop (2 ^ (m + 0)) (2 ^ Suc m) a = a"
    by (subst stages_loop.simps) simp
  then show ?case using "0.prems"(1) by simp
next
  case (Suc q)
  define len :: nat where "len = 2 ^ (m + Suc q)"
  define a' where "a' = blocks_loop len (2 * 2 ^ m) 0 a"
  have le: "(2::nat) ^ Suc m \<le> len" unfolding len_def by (intro power_increasing) simp_all
  have dv: "(2 * 2 ^ m :: nat) dvd len"
    unfolding len_def using le_imp_power_dvd[of "Suc m" "m + Suc q" "2::nat"] by simp
  have step: "stages_loop len (2 ^ Suc m) a = stages_loop len (2 ^ Suc (Suc m)) a'"
    using le by (subst stages_loop.simps) (simp add: a'_def mult.commute)
  have l': "length (fst a') = len" "length (snd a') = len"
    unfolding a'_def using length_blocks_loop[of len "2 * 2 ^ m" 0 a] Suc.prems
    by (simp_all add: len_def)
  have st: "\<And>p. p < 2 ^ (m + Suc q) \<Longrightarrow> cvec a' p = dit_stage (2 ^ m) (cvec a) p"
  proof -
    fix p :: nat assume "p < 2 ^ (m + Suc q)"
    then have "p < len" by (simp add: len_def)
    then show "cvec a' p = dit_stage (2 ^ m) (cvec a) p"
      unfolding a'_def
      using cvec_blocks_loop[of "2 ^ m" len 0 a p] dv Suc.prems(2,3)
      by (simp add: len_def)
  qed
  have inv': "stage_inv (Suc m) q x (cvec a')"
    by (rule stage_step[OF Suc.prems(1) st])
  have "stage_inv (Suc m + q) 0 x (cvec (stages_loop (2 ^ (Suc m + q)) (2 ^ Suc (Suc m)) a'))"
    by (rule Suc.IH[OF inv']) (use l' in \<open>simp_all add: len_def\<close>)
  then show ?case
    using step by (simp add: len_def)
qed

lemma DFT_one: "DFT (Suc 0) f 0 = f 0"
  by (simp add: DFT_def)

lemma fft_inplace_DFT:
  assumes "length re = 2 ^ k" and "length im = 2 ^ k" and "j < 2 ^ k"
  shows "cvec (fft_inplace re im) j = DFT (2 ^ k) (cvec (re, im)) j"
proof -
  define a where "a = bitrev_loop (2 ^ k) 1 0 re im"
  have la: "length (fst a) = 2 ^ (0 + k)" "length (snd a) = 2 ^ (0 + k)"
    unfolding a_def using length_bitrev_loop[of "2 ^ k" 1 0 re im] assms by simp_all
  have inv0: "stage_inv 0 k (cvec (re, im)) (cvec a)"
    unfolding stage_inv_def a_def
    using bitrev_loop_permutes[OF assms(1,2)] by (simp add: DFT_one)
  have "stage_inv (0 + k) 0 (cvec (re, im)) (cvec (stages_loop (2 ^ (0 + k)) (2 ^ Suc 0) a))"
    by (rule stages_loop_correct[OF inv0 la])
  then have "stage_inv k 0 (cvec (re, im)) (cvec (fft_inplace re im))"
    using assms(1) by (simp add: fft_inplace_def a_def)
  then show ?thesis
    using assms(3) unfolding stage_inv_def by simp
qed


section \<open>The loops on the store agree with the loops on two arrays\<close>

lemma put2_same: "re < length h \<Longrightarrow> im < length h \<Longrightarrow> put2 h re im (h ! re, h ! im) = h"
  by (simp add: put2_def)

lemma put2_nth:
  "re \<noteq> im \<Longrightarrow> re < length h \<Longrightarrow> im < length h \<Longrightarrow>
   put2 h re im a ! re = fst a \<and> put2 h re im a ! im = snd a \<and> length (put2 h re im a) = length h"
  by (simp add: put2_def)

lemma put2_put2:
  "re \<noteq> im \<Longrightarrow> put2 (put2 h re im a) re im b = put2 h re im b"
  by (simp add: put2_def list_update_swap[of re im])

lemma h_swap_sim:
  assumes "re \<noteq> im" "re < length h" "im < length h"
  shows "h_swap (h_swap (put2 h re im (r, m)) re i j) im i j = put2 h re im (swap r i j, swap m i j)"
  using assms
  by (simp add: h_swap_def h_set_def h_get_def put2_def swap_def Let_def list_update_swap[of re im])

lemma heap_butterfly_sim:
  assumes "re \<noteq> im" "re < length h" "im < length h"
  shows "heap_butterfly re im ang hs i j (put2 h re im a) = put2 h re im (butterfly ang hs i j a)"
proof (cases a)
  case (Pair r m)
  show ?thesis
    unfolding Pair using assms
    by (simp add: heap_butterfly_def butterfly_def h_set_def h_get_def put2_def Let_def
        list_update_swap[of re im])
qed

lemma heap_bitrev_loop_sim:
  assumes "re \<noteq> im" "re < length h" "im < length h"
  shows "heap_bitrev_loop re im len i j (put2 h re im (r, m)) =
         put2 h re im (bitrev_loop len i j r m)"
proof (induction len i j r m rule: bitrev_loop.induct)
  case (1 len i j r m)
  show ?case
  proof (cases "i < len")
    case False
    then show ?thesis
      by (subst heap_bitrev_loop.simps, subst bitrev_loop.simps) simp
  next
    case True
    obtain j1 b where c: "bitrev_carry j (drop_bit 1 len) = (j1, b)" by force
    show ?thesis
    proof (cases "i < j1 XOR b")
      case T2: True
      show ?thesis
        using True c T2 "1.IH"(1)[OF True refl c[symmetric] refl T2]
        by (subst heap_bitrev_loop.simps, subst bitrev_loop.simps)
           (simp add: Let_def h_swap_sim[OF assms])
    next
      case F2: False
      show ?thesis
        using True c F2 "1.IH"(2)[OF True refl c[symmetric] refl F2]
        by (subst heap_bitrev_loop.simps, subst bitrev_loop.simps) (simp add: Let_def)
    qed
  qed
qed

lemma heap_block_loop_sim:
  assumes "re \<noteq> im" "re < length h" "im < length h"
  shows "heap_block_loop re im ang hs i (put2 h re im a) = put2 h re im (block_loop ang hs i a)"
proof -
  have "fold (heap_butterfly re im ang hs i) [0..<n] (put2 h re im a) =
        put2 h re im (fold (butterfly ang hs i) [0..<n] a)" for n
    by (induction n) (simp_all add: heap_butterfly_sim[OF assms])
  then show ?thesis by (simp add: heap_block_loop_def block_loop_def)
qed

lemma heap_blocks_loop_sim:
  assumes "re \<noteq> im" "re < length h" "im < length h"
  shows "heap_blocks_loop re im len sz i (put2 h re im a) =
         put2 h re im (blocks_loop len sz i a)"
proof (induction len sz i a rule: blocks_loop.induct)
  case (1 len sz i a)
  show ?case
  proof (cases "0 < sz \<and> i < len")
    case True
    then show ?thesis
      using "1.IH"
      by (subst heap_blocks_loop.simps, subst blocks_loop.simps)
         (simp add: heap_block_loop_sim[OF assms])
  next
    case False
    then show ?thesis
      by (subst heap_blocks_loop.simps, subst blocks_loop.simps) auto
  qed
qed

lemma heap_stages_loop_sim:
  assumes "re \<noteq> im" "re < length h" "im < length h"
  shows "heap_stages_loop re im len sz (put2 h re im a) =
         put2 h re im (stages_loop len sz a)"
proof (induction len sz a rule: stages_loop.induct)
  case (1 len sz a)
  show ?case
  proof (cases "0 < sz \<and> sz \<le> len")
    case True
    then show ?thesis
      using "1.IH"
      by (subst heap_stages_loop.simps, subst stages_loop.simps)
         (simp add: heap_blocks_loop_sim[OF assms])
  next
    case False
    then show ?thesis
      by (subst heap_stages_loop.simps, subst stages_loop.simps) auto
  qed
qed

text \<open>The in-place part of the transform on the store, for two distinct arrays.\<close>

lemma heap_inplace_sim:
  assumes "re \<noteq> im" "re < length h" "im < length h"
  shows "heap_stages_loop re im (length (h ! re)) 2
           (heap_bitrev_loop re im (length (h ! re)) 1 0 h) =
         put2 h re im (fft_inplace (h ! re) (h ! im))"
proof -
  have "heap_bitrev_loop re im (length (h ! re)) 1 0 (put2 h re im (h ! re, h ! im)) =
        put2 h re im (bitrev_loop (length (h ! re)) 1 0 (h ! re) (h ! im))"
    by (rule heap_bitrev_loop_sim[OF assms])
  then show ?thesis
    using assms
    by (simp add: put2_same heap_stages_loop_sim[OF assms] fft_inplace_def)
qed

lemma fft1D_pow2:
  assumes "length re = 2 ^ k" and "length im = length re"
  shows "fft1D re im = fft_inplace re im"
proof -
  have "fft1D re im = (take (2 ^ k) (fst (fft_inplace re im)), take (2 ^ k) (snd (fft_inplace re im)))"
    using fft1D_pads_and_truncates[OF assms(2)] assms(1) by (simp add: Let_def)
  then show ?thesis
    using length_fft_inplace[of re im] assms by (simp add: prod_eq_iff)
qed

lemma pad_loop_fixed_iff:
  assumes "0 < N"
  shows "pad_loop 1 N = N \<longleftrightarrow> (\<exists>k. N = 2 ^ k)"
proof
  assume "pad_loop 1 N = N"
  then have "N = 2 ^ ceillog2 N" using pad_loop_ceillog2[OF assms] by simp
  then show "\<exists>k. N = 2 ^ k" by blast
next
  assume "\<exists>k. N = 2 ^ k"
  then obtain k where "N = 2 ^ k" by blast
  then show "pad_loop 1 N = N" using pad_loop_ceillog2[OF assms] by simp
qed

lemma fft1D_heap_short:
  "length (h ! real_in) \<le> 1 \<Longrightarrow> fft1D_heap h real_in imag_in = (h, real_in, imag_in)"
  by (simp add: fft1D_heap_def)

lemma fft1D_heap_pow2_refs:
  assumes "2 \<le> length (h ! real_in)" and "length (h ! real_in) = 2 ^ k"
  shows "fft1D_heap h real_in imag_in =
         (heap_stages_loop real_in imag_in (length (h ! real_in)) 2
            (heap_bitrev_loop real_in imag_in (length (h ! real_in)) 1 0 h),
          real_in, imag_in)"
proof -
  have p: "pad_loop 1 (length (h ! real_in)) = length (h ! real_in)"
    using pad_loop_fixed_iff[of "length (h ! real_in)"] assms by auto
  show ?thesis
    using assms(1) p by (simp add: fft1D_heap_def Let_def)
qed

lemma fft1D_heap_pow2:
  assumes "2 \<le> length (h ! real_in)" and "length (h ! real_in) = 2 ^ k"
    and "length (h ! imag_in) = length (h ! real_in)"
    and "real_in \<noteq> imag_in" and "real_in < length h" and "imag_in < length h"
  shows "fft1D_heap h real_in imag_in =
         (put2 h real_in imag_in (fft1D (h ! real_in) (h ! imag_in)), real_in, imag_in)"
  using fft1D_heap_pow2_refs[OF assms(1,2)] heap_inplace_sim[OF assms(4,5,6)]
    fft1D_pow2[OF assms(2,3)] by simp

lemma fft1D_heap_padded:
  assumes r: "real_in < length h" and i: "imag_in < length h"
    and li: "length (h ! imag_in) = length (h ! real_in)"
    and N2: "2 \<le> length (h ! real_in)" and np: "\<not> (\<exists>k. length (h ! real_in) = 2 ^ k)"
  shows "fft1D_heap h real_in imag_in =
         (let N = length (h ! real_in); P = 2 ^ ceillog2 N;
              out = fft_inplace (h ! real_in @ replicate (P - N) 0) (h ! imag_in @ replicate (P - N) 0)
          in (h @ [fst out, snd out, take N (fst out), take N (snd out)],
              length h + 2, length h + 3))"
proof -
  define N where "N = length (h ! real_in)"
  define P :: nat where "P = 2 ^ ceillog2 N"
  define rp where "rp = h ! real_in @ replicate (P - N) 0"
  define ip where "ip = h ! imag_in @ replicate (P - N) 0"
  define out where "out = fft_inplace rp ip"
  have Npos: "0 < N" using N2 unfolding N_def by linarith
  have pl: "pad_loop 1 N = P" unfolding P_def by (rule pad_loop_ceillog2[OF Npos])
  have PN: "P \<noteq> N" using np unfolding P_def N_def by metis
  have NP: "N \<le> P" unfolding P_def by (rule le_two_power_ceillog2)
  have lrp: "length rp = P" "length ip = P" using NP li by (simp_all add: rp_def ip_def N_def)
  define hd where "hd = h @ [rp, ip]"
  have ts: "typed_set (replicate P 0) (h ! real_in) = rp" "typed_set (replicate P 0) (h ! imag_in) = ip"
    using li by (simp_all add: typed_set_def rp_def ip_def N_def)
  have pad: "(let (ha, paddedReal) = alloc h (replicate P 0);
                  (hb, paddedImag) = alloc ha (replicate P 0);
                  hc = hb[paddedReal := typed_set (hb ! paddedReal) (hb ! real_in)];
                  hd = hc[paddedImag := typed_set (hc ! paddedImag) (hc ! imag_in)]
              in (hd, paddedReal, paddedImag)) = (hd, length h, Suc (length h))"
    using r i by (simp add: alloc_def Let_def nth_append ts hd_def list_update_append)
  have hdn: "hd ! length h = rp" "hd ! Suc (length h) = ip" "length hd = length h + 2"
    by (simp_all add: hd_def nth_append)
  have loops: "heap_stages_loop (length h) (Suc (length h)) (length (hd ! length h)) 2
                 (heap_bitrev_loop (length h) (Suc (length h)) (length (hd ! length h)) 1 0 hd)
               = put2 hd (length h) (Suc (length h)) out"
    using heap_inplace_sim[of "length h" "Suc (length h)" hd] hdn by (simp add: out_def)
  have p2: "put2 hd (length h) (Suc (length h)) out = h @ [fst out, snd out]"
    by (simp add: put2_def hd_def list_update_append)
  have h3n: "(h @ [fst out, snd out]) ! length h = fst out"
    "(h @ [fst out, snd out, take N (fst out)]) ! Suc (length h) = snd out"
    by (simp_all add: nth_append)
  have "fft1D_heap h real_in imag_in =
        (h @ [fst out, snd out, take N (fst out), take N (snd out)], length h + 2, length h + 3)"
    using N2 PN lrp pl pad hdn loops
    by (simp add: fft1D_heap_def N_def[symmetric] Let_def p2 alloc_def h3n)
  then show ?thesis
    by (simp add: Let_def N_def[symmetric] P_def[symmetric] rp_def[symmetric] ip_def[symmetric]
        out_def[symmetric])
qed

lemma three_not_pow2: "\<not> (\<exists>k. (3::nat) = 2 ^ k)"
proof
  assume "\<exists>k. (3::nat) = 2 ^ k"
  then obtain k where k: "(3::nat) = 2 ^ k" by blast
  then have "odd ((2::nat) ^ k)" by (metis even_numeral odd_numeral numeral_eq_iff semiring_norm(88) even_Suc even_zero numeral_3_eq_3)
  then have "k = 0" by simp
  then show False using k by simp
qed


section \<open>PhotoEditor.fft1D: a length that is not a power of two\<close>

lemma pe_fft1D_three:
  "pe_fft1D [Some 1, Some 0, Some 0] [Some 0, Some 0, Some 0] =
     ([Some 1, Some 1, None], [Some 0, Some 0, None])"
proof -
  have c1: "bitrev_carry 0 (Suc 0) = (0, Suc 0)"
    by (subst bitrev_carry.simps) simp
  have c2: "bitrev_carry (Suc 0) (Suc 0) = (0, 0)"
    by (subst bitrev_carry.simps, simp add: drop_bit_eq_div, subst bitrev_carry.simps, simp)
  have d: "drop_bit (Suc 0) (3::nat) = Suc 0" by (simp add: drop_bit_eq_div)
  have br: "pe_bitrev_loop 3 (Suc 0) 0 [Some 1, Some 0, Some 0] [Some 0, Some 0, Some 0] =
            ([Some 1, Some 0, Some 0], [Some 0, Some 0, Some 0])"
    by (subst pe_bitrev_loop.simps, simp add: d c1,
        subst pe_bitrev_loop.simps, simp add: d c2,
        subst pe_bitrev_loop.simps, simp)
  have b0: "pe_block_loop 2 0 ([Some 1, Some 0, Some 0], [Some 0, Some 0, Some 0]) =
            ([Some 1, Some 1, Some 0], [Some 0, Some 0, Some 0])"
    by (simp add: pe_block_loop_def pe_butterfly_def js_get_def js_add_def js_sub_def js_scale_def Let_def)
  have b2: "pe_block_loop 2 (Suc (Suc 0)) ([Some 1, Some 1, Some 0], [Some 0, Some 0, Some 0]) =
            ([Some 1, Some 1, None], [Some 0, Some 0, None])"
    by (simp add: pe_block_loop_def pe_butterfly_def js_get_def js_add_def js_sub_def js_scale_def Let_def)
  have bl: "pe_blocks_loop 3 2 0 ([Some 1, Some 0, Some 0], [Some 0, Some 0, Some 0]) =
            ([Some 1, Some 1, None], [Some 0, Some 0, None])"
    by (subst pe_blocks_loop.simps, simp add: b0,
        subst pe_blocks_loop.simps, simp add: b2,
        subst pe_blocks_loop.simps, simp)
  have st: "pe_stages_loop 3 2 ([Some 1, Some 0, Some 0], [Some 0, Some 0, Some 0]) =
            ([Some 1, Some 1, None], [Some 0, Some 0, None])"
    by (subst pe_stages_loop.simps, simp add: bl, subst pe_stages_loop.simps, simp)
  have three: "Suc (Suc (Suc 0)) = 3" by simp
  show ?thesis
    by (simp add: pe_fft1D_def three br st)
qed

lemma fft_inplace_impulse4:
  "fft_inplace [1, 0, 0, 0] [0, 0, 0, 0] = ([1, 1, 1, 1], [0, 0, 0, 0])"
proof -
  let ?out = "fft_inplace [1, 0, 0, 0] [0, 0, 0, 0]"
  have len: "length (fst ?out) = 4" "length (snd ?out) = 4"
    using length_fft_inplace[of "[1, 0, 0, 0]" "[0, 0, 0, 0]"] by simp_all
  have s4: "(\<Sum>t<4::nat. f t) = f 0 + f 1 + f 2 + f 3" for f :: "nat \<Rightarrow> complex"
    by (simp add: lessThan_Suc numeral_eq_Suc)
  have val: "cvec ?out j = 1" if "j < 4" for j
  proof -
    have "cvec ?out j = DFT (2 ^ 2) (cvec ([1, 0, 0, 0], [0, 0, 0, 0])) j"
      by (rule fft_inplace_DFT) (use that in simp_all)
    also have "\<dots> = 1"
      by (simp add: DFT_def s4 cvec_def complex_eq_iff)
    finally show ?thesis .
  qed
  have re: "fst ?out ! j = 1" and im: "snd ?out ! j = 0" if "j < 4" for j
    using val[OF that] by (simp_all add: cvec_def complex_eq_iff)
  have "fst ?out = [1, 1, 1, 1]"
    by (rule nth_equalityI) (use len re in \<open>auto simp: nth_Cons' \<close>)
  moreover have "snd ?out = [0, 0, 0, 0]"
    by (rule nth_equalityI) (use len im in \<open>auto simp: nth_Cons' \<close>)
  ultimately show ?thesis by (simp add: prod_eq_iff)
qed

lemma fft1D_pads_explicit:
  assumes "length re = N" and "length im = N" and "2 ^ ceillog2 N = P"
    and "re' = re @ replicate (P - N) 0" and "im' = im @ replicate (P - N) 0"
  shows "fft1D re im = (take N (fst (fft_inplace re' im')), take N (snd (fft_inplace re' im')))"
  using fft1D_pads_and_truncates[of im re] assms by (simp add: Let_def)

lemma fft1D_three: "fft1D [1, 0, 0] [0, 0, 0] = ([1, 1, 1], [0, 0, 0])"
proof -
  have c: "ceillog2 3 = 2" by (rule ceillog2_eqI) simp_all
  have "fft1D [1, 0, 0] [0, 0, 0] =
        (take 3 (fst (fft_inplace [1, 0, 0, 0] [0, 0, 0, 0])),
         take 3 (snd (fft_inplace [1, 0, 0, 0] [0, 0, 0, 0])))"
    by (rule fft1D_pads_explicit[where P = 4]) (simp_all add: c)
  then show ?thesis by (simp add: fft_inplace_impulse4)
qed


section \<open>PhotoEditor.fft1D: on a power-of-two length it computes what FFTAnalyzer.fft1D computes\<close>

lemma pe_swap_sim:
  "i < length a \<Longrightarrow> j < length a \<Longrightarrow> pe_swap (map Some a) i j = map Some (swap a i j)"
  by (simp add: pe_swap_def swap_def js_get_def Let_def map_update)

lemma pe_bitrev_loop_sim:
  assumes "1 \<le> i" and "i \<le> 2 ^ k" and "j = bitrev k (i - 1)"
    and "length re = 2 ^ k" and "length im = 2 ^ k"
  shows "pe_bitrev_loop (2 ^ k) i j (map Some re) (map Some im) =
         (map Some (fst (bitrev_loop (2 ^ k) i j re im)),
          map Some (snd (bitrev_loop (2 ^ k) i j re im)))"
  using assms
proof (induction "2 ^ k - i" arbitrary: i j re im rule: less_induct)
  case less
  show ?case
  proof (cases "i < 2 ^ k")
    case False
    then show ?thesis
      by (subst pe_bitrev_loop.simps, subst (1 2) bitrev_loop.simps) simp
  next
    case True
    have "Suc (i - 1) < 2 ^ k" using True less.prems(1) by simp
    from bitrev_carry_next[OF this]
    obtain j1 b where c: "bitrev_carry j (2 ^ k div 2) = (j1, b)"
      and x: "j1 XOR b = bitrev k i"
      using less.prems(1,3) by auto
    define j2 where "j2 = bitrev k i"
    have j2lt: "j2 < 2 ^ k" unfolding j2_def by (rule bitrev_less)
    define re' where "re' = (if i < j2 then swap re i j2 else re)"
    define im' where "im' = (if i < j2 then swap im i j2 else im)"
    have l': "length re' = 2 ^ k" "length im' = 2 ^ k"
      using less.prems(4,5) by (simp_all add: re'_def im'_def)
    have step: "bitrev_loop (2 ^ k) i j re im = bitrev_loop (2 ^ k) (Suc i) j2 re' im'"
      using True c x
      by (subst bitrev_loop.simps)
         (simp add: Let_def drop_bit_eq_div j2_def re'_def im'_def)
    have pstep: "pe_bitrev_loop (2 ^ k) i j (map Some re) (map Some im) =
                 pe_bitrev_loop (2 ^ k) (Suc i) j2 (map Some re') (map Some im')"
      using True c x j2lt less.prems(4,5)
      by (subst pe_bitrev_loop.simps)
         (simp add: Let_def drop_bit_eq_div j2_def[symmetric] re'_def im'_def pe_swap_sim)
    show ?thesis
      unfolding step pstep
      by (rule less.hyps) (use True l' in \<open>simp_all add: j2_def\<close>)
  qed
qed

lemma pe_butterfly_sim:
  assumes "i + j + half < length re" and "length im = length re" and "0 < half"
    and "len = 2 * half"
  shows "pe_butterfly (cos ang) (sin ang) len i j
           (map Some re, map Some im, cos (ang * real j), sin (ang * real j)) =
         (map Some (fst (butterfly ang half i j (re, im))),
          map Some (snd (butterfly ang half i j (re, im))),
          cos (ang * real (Suc j)), sin (ang * real (Suc j)))"
proof -
  have k: "i + j < length re" "i + j < length im" "i + j + half < length im"
    using assms by simp_all
  have ne: "i + j \<noteq> i + j + half" using assms(3) by simp
  have cs: "cos (ang * (1 + real j)) = cos (ang * real j) * cos ang - sin (ang * real j) * sin ang"
    "sin (ang * (1 + real j)) = cos (ang * real j) * sin ang + sin (ang * real j) * cos ang"
    by (simp_all add: algebra_simps cos_add sin_add)
  show ?thesis
    using k ne assms(1,4)
    by (simp add: pe_butterfly_def butterfly_def Let_def js_get_def js_add_def js_sub_def
        js_scale_def map_update cs list_update_swap[of "i + j" "i + j + half"])
qed

lemma pe_fold_butterfly_sim:
  assumes "i + 2 * half \<le> length re" and "length im = length re" and "n \<le> half"
  shows "fold (pe_butterfly (cos ang) (sin ang) (2 * half) i) [0..<n]
           (map Some re, map Some im, 1, 0) =
         (map Some (fst (fold (butterfly ang half i) [0..<n] (re, im))),
          map Some (snd (fold (butterfly ang half i) [0..<n] (re, im))),
          cos (ang * real n), sin (ang * real n))"
  using assms(3)
proof (induction n)
  case 0
  then show ?case by simp
next
  case (Suc n)
  define b where "b = fold (butterfly ang half i) [0..<n] (re, im)"
  have lb: "length (fst b) = length re" "length (snd b) = length re"
    unfolding b_def using length_fold_butterfly[of ang half i n "(re, im)"] assms(2) by simp_all
  have IH: "fold (pe_butterfly (cos ang) (sin ang) (2 * half) i) [0..<n]
              (map Some re, map Some im, 1, 0) =
            (map Some (fst b), map Some (snd b), cos (ang * real n), sin (ang * real n))"
    unfolding b_def using Suc by simp
  have hpos: "0 < half" and nh: "n < half" using Suc.prems by simp_all
  have inr: "i + n + half < length (fst b)" using assms(1) nh lb by simp
  have "pe_butterfly (cos ang) (sin ang) (2 * half) i n
          (map Some (fst b), map Some (snd b), cos (ang * real n), sin (ang * real n)) =
        (map Some (fst (butterfly ang half i n (fst b, snd b))),
         map Some (snd (butterfly ang half i n (fst b, snd b))),
         cos (ang * real (Suc n)), sin (ang * real (Suc n)))"
    by (rule pe_butterfly_sim[OF inr _ hpos]) (use lb in simp_all)
  then show ?case
    using IH by (simp add: b_def)
qed

lemma pe_block_loop_sim:
  assumes "i + 2 * half \<le> length (fst a)" and "length (snd a) = length (fst a)" and "0 < half"
  shows "pe_block_loop (2 * half) i (defined_arrays a) =
         defined_arrays (block_loop (- 2 * pi / real (2 * half)) half i a)"
proof -
  obtain re im where a: "a = (re, im)" by (cases a)
  show ?thesis
    using pe_fold_butterfly_sim[of i half re im half "- 2 * pi / real (2 * half)"] assms
    unfolding a
    by (simp add: pe_block_loop_def block_loop_def defined_arrays_def Let_def)
qed

lemma pe_blocks_loop_sim:
  assumes "0 < half" and "(2 * half) dvd N" and "(2 * half) dvd i0"
    and "length (fst a) = N" and "length (snd a) = N"
  shows "pe_blocks_loop N (2 * half) i0 (defined_arrays a) =
         defined_arrays (blocks_loop N (2 * half) i0 a)"
  using assms(3,4,5)
proof (induction "N - i0" arbitrary: i0 a rule: less_induct)
  case less
  show ?case
  proof (cases "i0 < N")
    case False
    then show ?thesis
      by (subst pe_blocks_loop.simps, subst blocks_loop.simps) simp
  next
    case True
    obtain c where c: "i0 = 2 * half * c" using less.prems(1) by (auto simp: dvd_def)
    obtain d where d: "N = 2 * half * d" using assms(2) by (auto simp: dvd_def)
    have "c < d" using True assms(1) unfolding c d by simp
    then have "Suc c \<le> d" by simp
    then have "2 * half * Suc c \<le> 2 * half * d" by (rule mult_le_mono2)
    then have fit: "i0 + 2 * half \<le> N" unfolding c d by simp
    define a1 where "a1 = block_loop (- 2 * pi / real (2 * half)) half i0 a"
    have l1: "length (fst a1) = N" "length (snd a1) = N"
      unfolding a1_def using length_block_loop[of "- 2 * pi / real (2 * half)" half i0 a] less.prems
      by simp_all
    have blk: "pe_block_loop (2 * half) i0 (defined_arrays a) = defined_arrays a1"
      unfolding a1_def by (rule pe_block_loop_sim) (use fit less.prems assms(1) in simp_all)
    have step: "blocks_loop N (2 * half) i0 a = blocks_loop N (2 * half) (i0 + 2 * half) a1"
      using True assms(1) by (subst blocks_loop.simps) (simp add: a1_def)
    have pstep: "pe_blocks_loop N (2 * half) i0 (defined_arrays a) =
                 pe_blocks_loop N (2 * half) (i0 + 2 * half) (defined_arrays a1)"
      using True assms(1) by (subst pe_blocks_loop.simps) (simp add: blk)
    show ?thesis
      unfolding step pstep
      by (rule less.hyps) (use True assms(1) less.prems(1) l1 in auto)
  qed
qed

lemma pe_stages_loop_sim:
  assumes "length (fst a) = 2 ^ (m + q)" and "length (snd a) = 2 ^ (m + q)"
  shows "pe_stages_loop (2 ^ (m + q)) (2 ^ Suc m) (defined_arrays a) =
         defined_arrays (stages_loop (2 ^ (m + q)) (2 ^ Suc m) a)"
  using assms
proof (induction q arbitrary: m a)
  case 0
  have "\<not> (2::nat) ^ Suc m \<le> 2 ^ m" by simp
  then show ?case
    by (subst pe_stages_loop.simps, subst stages_loop.simps) simp
next
  case (Suc q)
  define len :: nat where "len = 2 ^ (m + Suc q)"
  define a' where "a' = blocks_loop len (2 * 2 ^ m) 0 a"
  have le: "(2::nat) ^ Suc m \<le> len" unfolding len_def by (intro power_increasing) simp_all
  have dv: "(2 * 2 ^ m :: nat) dvd len"
    unfolding len_def using le_imp_power_dvd[of "Suc m" "m + Suc q" "2::nat"] by simp
  have l': "length (fst a') = len" "length (snd a') = len"
    unfolding a'_def using length_blocks_loop[of len "2 * 2 ^ m" 0 a] Suc.prems
    by (simp_all add: len_def)
  have blk: "pe_blocks_loop len (2 * 2 ^ m) 0 (defined_arrays a) = defined_arrays a'"
    unfolding a'_def
    by (rule pe_blocks_loop_sim) (use dv Suc.prems in \<open>simp_all add: len_def\<close>)
  have step: "stages_loop len (2 ^ Suc m) a = stages_loop len (2 ^ Suc (Suc m)) a'"
    using le by (subst stages_loop.simps) (simp add: a'_def mult.commute)
  have pstep: "pe_stages_loop len (2 ^ Suc m) (defined_arrays a) =
               pe_stages_loop len (2 ^ Suc (Suc m)) (defined_arrays a')"
    using le blk by (subst pe_stages_loop.simps) (simp add: mult.commute)
  have "pe_stages_loop (2 ^ (Suc m + q)) (2 ^ Suc (Suc m)) (defined_arrays a') =
        defined_arrays (stages_loop (2 ^ (Suc m + q)) (2 ^ Suc (Suc m)) a')"
    by (rule Suc.IH) (use l' in \<open>simp_all add: len_def\<close>)
  then show ?case
    using step pstep by (simp add: len_def)
qed

lemma pe_fft1D_sim:
  assumes "length re = 2 ^ k" and "length im = 2 ^ k"
  shows "pe_fft1D (map Some re) (map Some im) = defined_arrays (fft1D re im)"
proof (cases k)
  case 0
  then show ?thesis
    using assms by (simp add: pe_fft1D_def fft1D_def defined_arrays_def)
next
  case (Suc k')
  have p1: "(1::nat) \<le> 2 ^ k'" by simp
  have p2: "(2::nat) ^ k = 2 * 2 ^ k'" using Suc by simp
  have N2: "\<not> (2::nat) ^ k \<le> 1" using p1 unfolding p2 by linarith
  have z: "0 = bitrev k (1 - 1)" by (induction k) simp_all
  define a where "a = bitrev_loop (2 ^ k) 1 0 re im"
  have la: "length (fst a) = 2 ^ (0 + k)" "length (snd a) = 2 ^ (0 + k)"
    unfolding a_def using length_bitrev_loop[of "2 ^ k" 1 0 re im] assms by simp_all
  have br: "pe_bitrev_loop (2 ^ k) 1 0 (map Some re) (map Some im) = defined_arrays a"
    unfolding a_def defined_arrays_def
    by (rule pe_bitrev_loop_sim[OF _ _ z assms]) simp_all
  have st: "pe_stages_loop (2 ^ (0 + k)) (2 ^ Suc 0) (defined_arrays a) =
            defined_arrays (stages_loop (2 ^ (0 + k)) (2 ^ Suc 0) a)"
    by (rule pe_stages_loop_sim[OF la])
  have "pe_fft1D (map Some re) (map Some im) = defined_arrays (fft_inplace re im)"
    using N2 br st assms(1) by (simp add: pe_fft1D_def fft_inplace_def a_def Let_def)
  then show ?thesis
    using fft1D_pow2[OF assms(1)] assms by simp
qed

section \<open>Color scaling and cropping: the claims\<close>

text \<open>
  Claim C7. Every R, G and B byte that the scaling loop writes (offsets 0, 1 and 2 of
  each pixel) is \<open>min(255, max(0, round(original * scale)))\<close> and lies in 0..255.
  Here \<open>scale\<close> is the double nearest to the channel's adjustment over 100,
  \<open>original * scale\<close> is the double nearest to the product, and \<open>round\<close> takes
  that double to the nearest integer, a tie going up. The loop is the same in
  \<open>ColorAdjustments.applyToImageData\<close> and in \<open>PhotoEditor.applyColorAdjustments\<close>.
\<close>

theorem color_scaling_clamped:
  assumes "k < length (data original)" and "k mod 4 \<noteq> 3"
  shows "(let adjustment = (if k mod 4 = 0 then red adj
                            else if k mod 4 = 1 then green adj else blue adj);
              scale = fl (of_int adjustment / 100);
              product = fl (of_int (data original ! k) * scale);
              written = data (adjusted_copy adj original) ! k
          in written = min 255 (max 0 \<lfloor>product + 1 / 2\<rfloor>)
             \<and> 0 \<le> written \<and> written \<le> 255)"
proof -
  have "data (adjusted_copy adj original) ! k =
        scale_channel (data original ! k)
          (channel_scale (fl (of_int (red adj) / 100)) (fl (of_int (green adj) / 100))
               (fl (of_int (blue adj) / 100)) k)"
    using assms by (simp add: adjusted_copy_def Let_def nth_scale_loop)
  then show ?thesis
    using scale_channel_range
    by (simp add: scale_channel_eq channel_scale_def Let_def)
qed

theorem color_scaling_clamped_witness:
  "data (adjusted_copy \<lparr>red = 29, green = 50, blue = 150\<rparr>
           \<lparr>width = 1, height = 1, data = [50, 3, 200, 255]\<rparr>) ! 0 = 14
   \<and> data (adjusted_copy \<lparr>red = 29, green = 50, blue = 150\<rparr>
           \<lparr>width = 1, height = 1, data = [50, 3, 200, 255]\<rparr>) ! 1 = 2
   \<and> data (adjusted_copy \<lparr>red = 29, green = 50, blue = 150\<rparr>
           \<lparr>width = 1, height = 1, data = [50, 3, 200, 255]\<rparr>) ! 2 = 255"
proof -
  have r: "\<lfloor>fl (50 * fl (29 / 100)) + 1 / 2\<rfloor> = (14::int)" by code_simp
  have g: "\<lfloor>fl (3 * fl (50 / 100)) + 1 / 2\<rfloor> = (2::int)" by code_simp
  have b: "\<lfloor>fl (200 * fl (150 / 100)) + 1 / 2\<rfloor> = (300::int)" by code_simp
  show ?thesis
    using color_scaling_clamped [of 0 "\<lparr>width = 1, height = 1, data = [50, 3, 200, 255]\<rparr>"
        "\<lparr>red = 29, green = 50, blue = 150\<rparr>"]
      color_scaling_clamped [of 1 "\<lparr>width = 1, height = 1, data = [50, 3, 200, 255]\<rparr>"
        "\<lparr>red = 29, green = 50, blue = 150\<rparr>"]
      color_scaling_clamped [of 2 "\<lparr>width = 1, height = 1, data = [50, 3, 200, 255]\<rparr>"
        "\<lparr>red = 29, green = 50, blue = 150\<rparr>"]
      r g b
    by (simp add: Let_def)
qed

text \<open>
  Claim C8. The scaling loop of \<open>ColorAdjustments.applyToImageData\<close> leaves every
  alpha byte (offset 3 of each pixel) of the adjusted copy equal to the input's and keeps
  the buffer's length, and the image data the operation returns has the width and height
  of the input. The returned data is read back from the background canvas after the
  adjusted copy was put there: when the input is well formed and the canvas is at least
  as large as the image, every alpha byte of the returned data is the input's as well.
\<close>

theorem applyToImageData_alpha_extent:
  "(\<forall>k<length (data original). k mod 4 = 3 \<longrightarrow>
        data (adjusted_copy adj original) ! k = data original ! k)
   \<and> length (data (adjusted_copy adj original)) = length (data original)
   \<and> width (snd (applyToImageData adj original bg)) = width original
   \<and> height (snd (applyToImageData adj original bg)) = height original
   \<and> (wf_image original \<and> width original \<le> width bg \<and> height original \<le> height bg \<longrightarrow>
        (\<forall>py<height original. \<forall>px<width original.
           data (snd (applyToImageData adj original bg)) ! (4 * (py * width original + px) + 3)
             = data original ! (4 * (py * width original + px) + 3)))"
proof -
  let ?a = "adjusted_copy adj original"
  have ext: "width ?a = width original" "height ?a = height original"
    by (simp_all add: adjusted_copy_def Let_def)
  have alpha: "data ?a ! k = data original ! k"
    if "k < length (data original)" "k mod 4 = 3" for k
    using that by (simp add: adjusted_copy_def Let_def nth_scale_loop)
  have len: "length (data ?a) = length (data original)"
    by (simp add: adjusted_copy_def Let_def length_scale_loop)
  have dims: "width (snd (applyToImageData adj original bg)) = width original"
    "height (snd (applyToImageData adj original bg)) = height original"
    by (simp_all add: applyToImageData_def Let_def getImageData_def ext)
  have ret: "data (snd (applyToImageData adj original bg)) ! (4 * (py * width original + px) + 3)
             = data original ! (4 * (py * width original + px) + 3)"
    if wf: "wf_image original" and w: "width original \<le> width bg"
      and h: "height original \<le> height bg"
      and py: "py < height original" and px: "px < width original" for py px
  proof -
    let ?k = "4 * (py * width original + px) + 3"
    have "py * width original + px < py * width original + width original"
      using px by simp
    also have "\<dots> = (py + 1) * width original" by simp
    also have "\<dots> \<le> height original * width original"
      using py by (intro mult_le_mono1) simp
    finally have "py * width original + px < width original * height original"
      by (simp add: ac_simps)
    then have klen: "?k < length (data original)"
      using wf by (simp add: wf_image_def)
    have k3: "?k mod 4 = 3" by presburger
    have "data (snd (applyToImageData adj original bg)) ! ?k =
          data (getImageData (putImageData bg ?a) 0 0 (width ?a) (height ?a))
            ! (4 * (py * width ?a + px) + 3)"
      by (simp add: applyToImageData_def Let_def ext)
    also have "\<dots> = data ?a ! (4 * (py * width ?a + px) + 3)"
      by (rule put_get_roundtrip_nth) (use wf w h py px ext in auto)
    finally show ?thesis
      using alpha[OF klen k3] by (simp add: ext)
  qed
  show ?thesis
    using alpha len dims ret by blast
qed

theorem applyToImageData_alpha_extent_witness:
  "data (adjusted_copy \<lparr>red = 150, green = 100, blue = 50\<rparr>
           \<lparr>width = 1, height = 1, data = [10, 20, 30, 77]\<rparr>) ! 3 = 77
   \<and> data (snd (applyToImageData \<lparr>red = 150, green = 100, blue = 50\<rparr>
                \<lparr>width = 1, height = 1, data = [10, 20, 30, 77]\<rparr> canvas1)) ! 3 = 77"
  using applyToImageData_alpha_extent [of "\<lparr>width = 1, height = 1, data = [10, 20, 30, 77]\<rparr>"
      "\<lparr>red = 150, green = 100, blue = 50\<rparr>" canvas1]
  by (simp add: wf_image_def canvas1_def)

text \<open>
  Claim C9. \<open>getCropDimensions\<close> does not depend on the drag direction: for a
  valid crop area, exchanging \<open>cropStart\<close> and \<open>cropEnd\<close> gives the same
  rectangle, whose origin is the coordinate-wise minimum and whose extents are the
  absolute differences.
\<close>

theorem getCropDimensions_symmetric:
  assumes "isValidCropArea s"
  shows "getCropDimensions (swap_endpoints s) = getCropDimensions s
         \<and> (\<exists>a b. cropStart s = Some a \<and> cropEnd s = Some b
              \<and> getCropDimensions s =
                  Some \<lparr>rect_x = min (pos_x a) (pos_x b), rect_y = min (pos_y a) (pos_y b),
                        rect_width = \<bar>pos_x b - pos_x a\<bar>, rect_height = \<bar>pos_y b - pos_y a\<bar>\<rparr>)"
  using assms
  by (auto simp: getCropDimensions_def isValidCropArea_def swap_endpoints_def
           split: option.splits)

theorem getCropDimensions_symmetric_witness:
  "isValidCropArea (drag 30 5 10 25)
   \<and> getCropDimensions (swap_endpoints (drag 30 5 10 25))
     = Some \<lparr>rect_x = 10, rect_y = 5, rect_width = 20, rect_height = 20\<rparr>"
  using getCropDimensions_symmetric [of "drag 30 5 10 25"]
  by (simp add: isValidCropArea_def drag_def)

text \<open>
  Claim C10. \<open>applyCrop\<close> throws, leaving the tool and both canvases as they
  were, exactly when there is no valid crop area or the rectangle is narrower or lower
  than 10 pixels; whenever it changes the state, those preconditions held.
\<close>

theorem applyCrop_atomic:
  "((\<exists>e. applyCrop s = (s, Inl e)) \<longleftrightarrow>
      (\<not> isValidCropArea s \<or>
       (\<exists>d. getCropDimensions s = Some d \<and> (rect_width d < 10 \<or> rect_height d < 10))))
   \<and> (fst (applyCrop s) \<noteq> s \<longrightarrow>
        isValidCropArea s \<and>
        (\<exists>d. getCropDimensions s = Some d \<and> 10 \<le> rect_width d \<and> 10 \<le> rect_height d))"
  by (auto simp: applyCrop_def Let_def getCropDimensions_def isValidCropArea_def split: option.splits)

theorem applyCrop_atomic_witness:
  "(\<exists>e. applyCrop (drag 0 0 7 20) = (drag 0 0 7 20, Inl e))
   \<and> fst (applyCrop (drag 0 0 12 20)) \<noteq> drag 0 0 12 20
   \<and> isValidCropArea (drag 0 0 12 20)"
proof -
  have small: "getCropDimensions (drag 0 0 7 20) =
      Some \<lparr>rect_x = 0, rect_y = 0, rect_width = 7, rect_height = 20\<rparr>"
    by (simp add: getCropDimensions_def isValidCropArea_def drag_def)
  have "cropStart (fst (applyCrop (drag 0 0 12 20))) = None"
    by (simp add: applyCrop_def getCropDimensions_def isValidCropArea_def drag_def Let_def)
  moreover have "cropStart (drag 0 0 12 20) \<noteq> None" by (simp add: drag_def)
  ultimately have changed: "fst (applyCrop (drag 0 0 12 20)) \<noteq> drag 0 0 12 20" by metis
  show ?thesis
    using applyCrop_atomic [of "drag 0 0 7 20"] applyCrop_atomic [of "drag 0 0 12 20"]
      small changed by simp
qed

section \<open>The visualization buffer: the claims\<close>

text \<open>
  Claim C4. The claim: for every destination pixel \<open>(x, y)\<close> and all extents
  \<open>W, H \<ge> 1\<close>, the spectrum index read is \<open>srcY * W + srcX\<close> with
  \<open>srcX = (x + W/2) mod W\<close> and \<open>srcY = (y + H/2) mod H\<close>.
  \<open>FFTAnalyzer.visualizeFFT\<close> does so (lemma \<open>visualizeFFT_reads_shifted\<close>).
  \<open>PhotoEditor.visualizeFFT\<close> leaves the half extents unfloored: for the
  3-by-1 spectrum \<open>[4, 0, 0]\<close> it reads at the numbers 3, 4 and 2, so the peak at
  index 0, which the claim places at destination pixel 2, is never read and the whole
  buffer is black; the sibling draws the peak there. Neither buffer depends on the
  values \<open>Math.log\<close> takes.
\<close>

theorem pe_visualizeFFT_odd_width:
  "data (pe_visualizeFFT L [4, 0, 0] 3 1 4) = [0, 0, 0, 255, 0, 0, 0, 255, 0, 0, 0, 255]
   \<and> shifted_index 3 1 2 0 = 0
   \<and> data (visualizeFFT L [4, 0, 0] 3 1 4) = [0, 0, 0, 255, 0, 0, 0, 255, 255, 255, 255, 255]"
proof -
  have a: "array_get [4, 0, 0::real] 3 = None" "array_get [4, 0, 0::real] 4 = None"
    "array_get [4, 0, 0::real] 2 = Some 0"
    by (simp_all add: array_get_def)
  have i0: "intensity L 0 4 = 0" by (rule intensity_zero)
  have i4: "intensity L 4 4 = 255" by (rule intensity_top) (rule log_5_pos)
  have z: "pe_intensity L (Some 0) 4 = 0"
    by (simp add: pe_intensity_def Let_def fl_0 fl_1 Math_log_1 to_uint8_clamped_def)
  have s: "shifted_index 3 (Suc 0) 0 0 = Suc 0" "shifted_index 3 (Suc 0) (Suc 0) 0 = 2"
    "shifted_index 3 (Suc 0) 2 0 = 0"
    by (simp_all add: shifted_index_def)
  have rep: "replicate 12 (0::int) = [0, 0, 0, 0, 0, 0, 0, 0, 0, 0, 0, 0]"
    by (simp add: numeral_eq_Suc)
  have p0: "pe_put_pixel L [4, 0, 0] 3 (Suc 0) 4 0 0 d = d[0 := 0, Suc 0 := 0, Suc (Suc 0) := 0, 3 := 255]" for d
    by (simp add: pe_put_pixel_def pe_idx_Suc a pe_intensity_def)
  have p1: "pe_put_pixel L [4, 0, 0] 3 (Suc 0) 4 0 (Suc 0) d = d[4 := 0, 5 := 0, 6 := 0, 7 := 255]" for d
    by (simp add: pe_put_pixel_def pe_idx_Suc a pe_intensity_def)
  have p2: "pe_put_pixel L [4, 0, 0] 3 (Suc 0) 4 0 2 d = d[8 := 0, 9 := 0, 10 := 0, 11 := 255]" for d
    by (simp add: pe_put_pixel_def pe_idx_Suc a z)
  have q0: "put_pixel L [4, 0, 0] 3 (Suc 0) 4 0 0 d = d[0 := 0, Suc 0 := 0, Suc (Suc 0) := 0, 3 := 255]" for d
    by (simp add: put_pixel_def s i0)
  have q1: "put_pixel L [4, 0, 0] 3 (Suc 0) 4 0 (Suc 0) d = d[4 := 0, 5 := 0, 6 := 0, 7 := 255]" for d
    by (simp add: put_pixel_def s i0)
  have q2: "put_pixel L [4, 0, 0] 3 (Suc 0) 4 0 2 d = d[8 := 255, 9 := 255, 10 := 255, 11 := 255]" for d
    by (simp add: put_pixel_def s i4)
  have pe: "data (pe_visualizeFFT L [4, 0, 0] 3 1 4) = [0, 0, 0, 255, 0, 0, 0, 255, 0, 0, 0, 255]"
    by (simp add: pe_visualizeFFT_def upt3 p0 p1 p2 rep list_update_numeral)
  have fa: "data (visualizeFFT L [4, 0, 0] 3 1 4) = [0, 0, 0, 255, 0, 0, 0, 255, 255, 255, 255, 255]"
    by (simp add: visualizeFFT_def vis_row_def upt3 q0 q1 q2 rep list_update_numeral)
  show ?thesis using pe fa s by simp
qed

text \<open>
  Claim C5. For a magnitude spectrum whose maximum \<open>maxMag\<close> is positive, the byte
  \<open>FFTAnalyzer.visualizeFFT\<close> stores for a destination pixel is the floor of the
  double \<open>(logMag / maxLogMag) * 255\<close> (and 0 when \<open>1 + maxMag\<close> rounds to 1, where
  the quotient is \<open>NaN\<close>); it lies in 0..255, is 0 for magnitude 0 and is monotonic
  in the magnitude: a pixel whose source magnitude is not larger gets a byte that is
  not larger. It is written to the R, G and B bytes of the destination pixel, whose
  alpha byte is 255.
\<close>

theorem visualizeFFT_intensity:
  assumes "0 < maxMag" and "length magnitude = W * H"
    and "\<forall>m \<in> set magnitude. 0 \<le> m \<and> m \<le> maxMag"
    and "x < W" and "y < H"
  shows "(let d = data (visualizeFFT L magnitude W H maxMag);
              mag = magnitude ! shifted_index W H x y;
              logMag = Math_log L (fl (1 + mag));
              maxLogMag = Math_log L (fl (1 + maxMag));
              v = (if maxLogMag = 0 then 0 else \<lfloor>fl (fl (logMag / maxLogMag) * 255)\<rfloor>);
              off = 4 * (y * W + x)
          in d ! off = v \<and> d ! (off + 1) = v \<and> d ! (off + 2) = v \<and> d ! (off + 3) = 255
             \<and> 0 \<le> v \<and> v \<le> 255 \<and> (mag = 0 \<longrightarrow> v = 0)
             \<and> (\<forall>x' y'. x' < W \<and> y' < H \<and> magnitude ! shifted_index W H x' y' \<le> mag
                   \<longrightarrow> d ! (4 * (y' * W + x')) \<le> d ! off)
             \<and> (\<forall>m1 m2. 0 \<le> m1 \<and> m1 \<le> m2 \<longrightarrow> intensity L m1 maxMag \<le> intensity L m2 maxMag))"
proof -
  let ?d = "data (visualizeFFT L magnitude W H maxMag)"
  let ?mag = "magnitude ! shifted_index W H x y"
  define v where "v = (if Math_log L (fl (1 + maxMag)) = 0 then 0
      else \<lfloor>fl (fl (Math_log L (fl (1 + ?mag)) / Math_log L (fl (1 + maxMag))) * 255)\<rfloor>)"
  have inb: "0 \<le> magnitude ! shifted_index W H x' y'
             \<and> magnitude ! shifted_index W H x' y' \<le> maxMag" if "x' < W" "y' < H" for x' y'
  proof -
    have "shifted_index W H x' y' < length magnitude"
      using shifted_index_less[OF that] assms(2) by simp
    then have "magnitude ! shifted_index W H x' y' \<in> set magnitude" by simp
    then show ?thesis using assms(3) by blast
  qed
  have bounds: "0 \<le> ?mag" "?mag \<le> maxMag" using inb[OF assms(4,5)] by simp_all
  have iv: "intensity L ?mag maxMag = v"
    unfolding v_def by (rule intensity_value[OF bounds])
  have b0: "?d ! (4 * (y * W + x)) = v"
    using visualizeFFT_byte[OF assms(4,5), of 0 L magnitude maxMag] iv by simp
  have b1: "?d ! (4 * (y * W + x) + 1) = v"
    using visualizeFFT_byte[OF assms(4,5), of 1 L magnitude maxMag] iv by simp
  have b2: "?d ! (4 * (y * W + x) + 2) = v"
    using visualizeFFT_byte[OF assms(4,5), of 2 L magnitude maxMag] iv by simp
  have b3: "?d ! (4 * (y * W + x) + 3) = 255"
    using visualizeFFT_byte[OF assms(4,5), of 3 L magnitude maxMag] by simp
  have r: "0 \<le> v" "v \<le> 255"
    using intensity_range[of L ?mag maxMag] iv by simp_all
  have z: "?mag = 0 \<longrightarrow> v = 0"
    using intensity_zero[of L maxMag] iv by auto
  have mono: "intensity L m1 maxMag \<le> intensity L m2 maxMag" if "0 \<le> m1" "m1 \<le> m2" for m1 m2
    using intensity_mono[OF _ that, of maxMag L] assms(1) by simp
  have pix: "?d ! (4 * (y' * W + x')) \<le> ?d ! (4 * (y * W + x))"
    if "x' < W" "y' < H" "magnitude ! shifted_index W H x' y' \<le> ?mag" for x' y'
  proof -
    have "?d ! (4 * (y' * W + x')) = intensity L (magnitude ! shifted_index W H x' y') maxMag"
      using visualizeFFT_byte[OF that(1,2), of 0 L magnitude maxMag] by simp
    also have "\<dots> \<le> intensity L ?mag maxMag"
      using mono[OF _ that(3)] inb[OF that(1,2)] by simp
    finally show ?thesis using b0 iv by simp
  qed
  show ?thesis
    unfolding Let_def v_def[symmetric]
    using b0 b1 b2 b3 r z mono pix by (intro conjI) blast+
qed

theorem visualizeFFT_intensity_witness:
  "data (visualizeFFT sample_log [31, 1] 2 1 31) ! 0 = 50
   \<and> data (visualizeFFT sample_log [31, 1] 2 1 31) ! 1 = 50
   \<and> data (visualizeFFT sample_log [31, 1] 2 1 31) ! 2 = 50
   \<and> data (visualizeFFT sample_log [31, 1] 2 1 31) ! 3 = 255"
proof -
  have s: "shifted_index (Suc (Suc 0)) (Suc 0) 0 0 = Suc 0" by (simp add: shifted_index_def)
  have v: "\<lfloor>fl (fl ((6243314768165359 / 9007199254740992)
                      / (7804143460206699 / 2251799813685248)) * 255)\<rfloor> = (50::int)"
    by code_simp
  have l2: "sample_log_fun 2 = 6243314768165359 / 9007199254740992"
    and l32: "sample_log_fun 32 = 7804143460206699 / 2251799813685248"
    by (simp_all add: sample_log_fun_def)
  show ?thesis
    using visualizeFFT_intensity [of 31 "[31, 1]" 2 1 0 0 sample_log] v
    by (simp add: Let_def s fl_2 fl_32 Math_log_sample l2 l32 numeral_2_eq_2)
qed

section \<open>The spectral analyzer: the claims\<close>

text \<open>
  Claim C3. For the 2-by-2 all-white image the grayscale field is \<open>[1, 1, 1, 1]\<close>,
  the 2D transform has the single non-zero bin 4 at index \<open>(0, 0)\<close>, the magnitude
  spectrum is \<open>[4, 0, 0, 0]\<close> with maximum 4, and the visualization buffer has
  intensity 255 at the pixel \<open>(1, 1)\<close> and 0 at the three others (alpha 255
  throughout), whatever values \<open>Math.log\<close> takes.
\<close>

theorem computeFFT_white_2x2:
  "grayscale (getImageData white2x2 0 0 (width white2x2) (height white2x2)) = [1, 1, 1, 1]
   \<and> fft2D [1, 1, 1, 1] 2 2 = ([4, 0, 0, 0], [0, 0, 0, 0])
   \<and> magnitude_spectrum (fft2D [1, 1, 1, 1] 2 2) 4 = [4, 0, 0, 0]
   \<and> max_magnitude [4, 0, 0, 0] = 4
   \<and> data (computeFFT L white2x2) =
       [0, 0, 0, 255, 0, 0, 0, 255, 0, 0, 0, 255, 255, 255, 255, 255]"
proof -
  have wh: "width white2x2 = 2" "height white2x2 = 2" by (simp_all add: white2x2_def)
  have g: "grayscale (getImageData white2x2 0 0 (width white2x2) (height white2x2)) = [1, 1, 1, 1]"
    by (simp add: wh get_white gray_white)
  have c: "data (computeFFT L white2x2) =
       [0, 0, 0, 255, 0, 0, 0, 255, 0, 0, 0, 255, 255, 255, 255, 255]"
    by (simp add: computeFFT_def Let_def wh get_white gray_white fft2D_white mag_white
        max_white vis_white)
  show ?thesis
    using g c by (simp add: fft2D_white mag_white max_white)
qed

text \<open>
  Claim C1. For an input whose length \<open>N\<close> is a power of two, \<open>fft1D\<close> returns the
  forward, unnormalized discrete Fourier transform: output \<open>j\<close> is the sum over
  \<open>t\<close> of \<open>input t * e^(-2 \<pi> i j t / N)\<close>, with no scaling, in arrays of length
  \<open>N\<close>. Stated over real arithmetic, for \<open>FFTAnalyzer.fft1D\<close> and for
  \<open>PhotoEditor.fft1D\<close>, whose outputs on such an input are numbers, none \<open>NaN\<close>.
\<close>

theorem fft1D_is_DFT:
  assumes "length real_in = 2 ^ k" and "length imag_in = 2 ^ k" and "j < 2 ^ k"
  shows "(let X = (\<Sum>t<2 ^ k. Complex (real_in ! t) (imag_in ! t)
                               * cis (- 2 * pi * real j * real t / 2 ^ k))
          in Complex (fst (fft1D real_in imag_in) ! j) (snd (fft1D real_in imag_in) ! j) = X
             \<and> length (fst (fft1D real_in imag_in)) = 2 ^ k
             \<and> length (snd (fft1D real_in imag_in)) = 2 ^ k
             \<and> fst (pe_fft1D (map Some real_in) (map Some imag_in)) ! j = Some (Re X)
             \<and> snd (pe_fft1D (map Some real_in) (map Some imag_in)) ! j = Some (Im X)
             \<and> length (fst (pe_fft1D (map Some real_in) (map Some imag_in))) = 2 ^ k
             \<and> length (snd (pe_fft1D (map Some real_in) (map Some imag_in))) = 2 ^ k)"
proof -
  define X where "X = (\<Sum>t<2 ^ k. Complex (real_in ! t) (imag_in ! t)
                               * cis (- 2 * pi * real j * real t / 2 ^ k))"
  have li: "length imag_in = length real_in" using assms by simp
  have eq: "fft1D real_in imag_in = fft_inplace real_in imag_in"
    by (rule fft1D_pow2[OF assms(1) li])
  have len: "length (fst (fft1D real_in imag_in)) = 2 ^ k"
    "length (snd (fft1D real_in imag_in)) = 2 ^ k"
    using length_fft_inplace[of real_in imag_in] assms by (simp_all add: eq)
  have "Complex (fst (fft1D real_in imag_in) ! j) (snd (fft1D real_in imag_in) ! j) =
        cvec (fft_inplace real_in imag_in) j"
    by (simp add: eq cvec_def)
  also have "\<dots> = DFT (2 ^ k) (cvec (real_in, imag_in)) j"
    by (rule fft_inplace_DFT[OF assms])
  also have "\<dots> = X"
    by (simp add: DFT_def cvec_def X_def)
  finally have fa: "Complex (fst (fft1D real_in imag_in) ! j) (snd (fft1D real_in imag_in) ! j) = X" .
  then have ri: "fst (fft1D real_in imag_in) ! j = Re X" "snd (fft1D real_in imag_in) ! j = Im X"
    by (simp_all add: complex_eq_iff)
  have pe: "pe_fft1D (map Some real_in) (map Some imag_in) = defined_arrays (fft1D real_in imag_in)"
    by (rule pe_fft1D_sim[OF assms(1,2)])
  have "fst (pe_fft1D (map Some real_in) (map Some imag_in)) ! j = Some (Re X)"
    "snd (pe_fft1D (map Some real_in) (map Some imag_in)) ! j = Some (Im X)"
    "length (fst (pe_fft1D (map Some real_in) (map Some imag_in))) = 2 ^ k"
    "length (snd (pe_fft1D (map Some real_in) (map Some imag_in))) = 2 ^ k"
    using len ri assms(3) by (simp_all add: pe defined_arrays_def)
  then show ?thesis
    using fa len unfolding Let_def X_def[symmetric] by simp
qed

theorem fft1D_is_DFT_witness:
  "Complex (fst (fft1D [1, 2] [0, 0]) ! 1) (snd (fft1D [1, 2] [0, 0]) ! 1) = - 1
   \<and> fst (pe_fft1D [Some 1, Some 2] [Some 0, Some 0]) ! 1 = Some (- 1)"
proof -
  have s: "(\<Sum>t<2::nat. f t) = f 0 + f 1" for f :: "nat \<Rightarrow> complex"
    by (simp add: lessThan_Suc numeral_2_eq_2)
  have c: "cis (- pi) = - 1" by (simp add: complex_eq_iff)
  have z: "Complex 1 0 = 1" "Complex 2 0 = 2" by (simp_all add: complex_eq_iff)
  show ?thesis
    using fft1D_is_DFT [of "[1, 2]" 1 "[0, 0]" 1]
    by (simp add: s c z Let_def)
qed

text \<open>
  Claim C2. The claim: for a length \<open>N\<close> that is not a power of two, \<open>fft1D\<close>
  pads both arrays with zeros to the next power of two, transforms, and returns the
  first \<open>N\<close> entries. \<open>FFTAnalyzer.fft1D\<close> does so for every length (lemma
  \<open>fft1D_pads_and_truncates\<close>). \<open>PhotoEditor.fft1D\<close> has no padding step: on the
  impulse of length 3 its last butterfly reads index 3 of an array of length 3 and the
  result holds \<open>NaN\<close>, where the padded transform truncated to 3 entries is
  \<open>[1, 1, 1]\<close>.
\<close>

theorem pe_fft1D_no_padding:
  "pe_fft1D [Some 1, Some 0, Some 0] [Some 0, Some 0, Some 0] =
     ([Some 1, Some 1, None], [Some 0, Some 0, None])
   \<and> fft1D [1, 0, 0] [0, 0, 0] = ([1, 1, 1], [0, 0, 0])"
  using pe_fft1D_three fft1D_three by simp

section \<open>Array identity in \<open>fft1D\<close>: the claim\<close>

text \<open>
  Claim C6, as stated: for every input length, including lengths up to 1 and powers of
  two, \<open>fft1D\<close> returns newly allocated arrays and leaves the caller's arrays
  unchanged. It fails: for a one-element input the references returned are the
  arguments, and for a two-element input the references returned are the arguments and
  the caller's real array \<open>[1, 2]\<close> has become \<open>[3, -1]\<close>.
\<close>

theorem fft1D_heap_aliases_counterexample:
  "fft1D_heap [[5], [7]] 0 1 = ([[5], [7]], 0, 1)
   \<and> fft1D_heap [[1, 2], [0, 0]] 0 1 = ([[3, - 1], [0, 0]], 0, 1)"
proof -
  have p2: "length ([[1, 2], [0, 0::real]] ! 0) = 2 ^ 1" by simp
  have "fft1D_heap [[1, 2], [0, 0]] 0 1 =
        (put2 [[1, 2], [0, 0]] 0 1 (fft1D ([[1, 2], [0, 0]] ! 0) ([[1, 2], [0, 0]] ! 1)), 0, 1)"
    by (rule fft1D_heap_pow2[OF _ p2]) simp_all
  then have "fft1D_heap [[1, 2], [0, 0]] 0 1 = ([[3, - 1], [0, 0]], 0, 1)"
    by (simp add: fft1D_2 put2_def)
  then show ?thesis by (simp add: fft1D_heap_short)
qed

text \<open>
  Claim C6, amended. For two array references of equal length \<open>N\<close>:
  if \<open>N \<le> 1\<close>, \<open>FFTAnalyzer.fft1D\<close> returns the caller's arrays and leaves the
  store as it was; if \<open>N \<ge> 2\<close> is a power of two, it returns the caller's arrays,
  which (when they are two distinct arrays) now hold the transform; if \<open>N \<ge> 2\<close> is
  not a power of two, it returns two newly allocated, distinct arrays holding the
  result, and every array that existed before the call is unchanged.
\<close>

theorem fft1D_heap_aliasing:
  assumes "real_in < length h" and "imag_in < length h"
    and "length (h ! imag_in) = length (h ! real_in)"
  shows "(length (h ! real_in) \<le> 1 \<longrightarrow>
            fft1D_heap h real_in imag_in = (h, real_in, imag_in))
       \<and> (2 \<le> length (h ! real_in) \<and> (\<exists>k. length (h ! real_in) = 2 ^ k) \<longrightarrow>
            snd (fft1D_heap h real_in imag_in) = (real_in, imag_in)
            \<and> (real_in \<noteq> imag_in \<longrightarrow>
                 fst (fft1D_heap h real_in imag_in) =
                   put2 h real_in imag_in (fft1D (h ! real_in) (h ! imag_in))))
       \<and> (2 \<le> length (h ! real_in) \<and> \<not> (\<exists>k. length (h ! real_in) = 2 ^ k) \<longrightarrow>
            (case fft1D_heap h real_in imag_in of
               (h', out_re, out_im) \<Rightarrow>
                 length h \<le> out_re \<and> length h \<le> out_im \<and> out_re \<noteq> out_im
                 \<and> out_re < length h' \<and> out_im < length h'
                 \<and> take (length h) h' = h
                 \<and> (h' ! out_re, h' ! out_im) = fft1D (h ! real_in) (h ! imag_in)))"
proof (intro conjI impI)
  assume "length (h ! real_in) \<le> 1"
  then show "fft1D_heap h real_in imag_in = (h, real_in, imag_in)"
    by (rule fft1D_heap_short)
next
  assume a: "2 \<le> length (h ! real_in) \<and> (\<exists>k. length (h ! real_in) = 2 ^ k)"
  then obtain k where k: "length (h ! real_in) = 2 ^ k" by blast
  show "snd (fft1D_heap h real_in imag_in) = (real_in, imag_in)"
    using fft1D_heap_pow2_refs[OF _ k, of imag_in] a by simp
next
  assume a: "2 \<le> length (h ! real_in) \<and> (\<exists>k. length (h ! real_in) = 2 ^ k)"
    and ne: "real_in \<noteq> imag_in"
  then obtain k where k: "length (h ! real_in) = 2 ^ k" by blast
  show "fst (fft1D_heap h real_in imag_in) =
          put2 h real_in imag_in (fft1D (h ! real_in) (h ! imag_in))"
    using fft1D_heap_pow2[OF _ k assms(3) ne assms(1,2)] a by simp
next
  assume a: "2 \<le> length (h ! real_in) \<and> \<not> (\<exists>k. length (h ! real_in) = 2 ^ k)"
  define N where "N = length (h ! real_in)"
  define P :: nat where "P = 2 ^ ceillog2 N"
  define out where
    "out = fft_inplace (h ! real_in @ replicate (P - N) 0) (h ! imag_in @ replicate (P - N) 0)"
  have hp: "fft1D_heap h real_in imag_in =
        (h @ [fst out, snd out, take N (fst out), take N (snd out)], length h + 2, length h + 3)"
    using fft1D_heap_padded[OF assms] a
    by (simp add: Let_def N_def[symmetric] P_def[symmetric] out_def[symmetric])
  have pure: "fft1D (h ! real_in) (h ! imag_in) = (take N (fst out), take N (snd out))"
    using fft1D_pads_and_truncates[OF assms(3)]
    by (simp add: Let_def N_def[symmetric] P_def[symmetric] out_def[symmetric])
  show "case fft1D_heap h real_in imag_in of
               (h', out_re, out_im) \<Rightarrow>
                 length h \<le> out_re \<and> length h \<le> out_im \<and> out_re \<noteq> out_im
                 \<and> out_re < length h' \<and> out_im < length h'
                 \<and> take (length h) h' = h
                 \<and> (h' ! out_re, h' ! out_im) = fft1D (h ! real_in) (h ! imag_in)"
    unfolding hp pure by (simp add: nth_append)
qed

theorem fft1D_heap_aliasing_witness:
  "fft1D_heap [[5], [7]] 0 1 = ([[5], [7]], 0, 1)
   \<and> snd (fft1D_heap [[1, 2], [0, 0]] 0 1) = (0, 1)
   \<and> take 2 (fst (fft1D_heap [[1, 0, 0], [0, 0, 0]] 0 1)) = [[1, 0, 0], [0, 0, 0]]
   \<and> 2 \<le> fst (snd (fft1D_heap [[1, 0, 0], [0, 0, 0]] 0 1))"
proof -
  have p2: "\<exists>k. Suc (Suc 0) = 2 ^ k" by (rule exI[of _ 1]) simp
  have n3: "\<forall>k. Suc (Suc (Suc 0)) \<noteq> 2 ^ k"
    using three_not_pow2 by (simp add: numeral_3_eq_3)
  have a: "fft1D_heap [[5], [7]] 0 1 = ([[5], [7]], 0, 1)"
    using fft1D_heap_aliasing [of 0 "[[5], [7]]" 1] by simp
  have b: "snd (fft1D_heap [[1, 2], [0, 0]] 0 1) = (0, 1)"
    using fft1D_heap_aliasing [of 0 "[[1, 2], [0, 0]]" 1] p2 by simp
  have c: "take 2 (fst (fft1D_heap [[1, 0, 0], [0, 0, 0]] 0 1)) = [[1, 0, 0], [0, 0, 0]]
           \<and> 2 \<le> fst (snd (fft1D_heap [[1, 0, 0], [0, 0, 0]] 0 1))"
    using fft1D_heap_aliasing [of 0 "[[1, 0, 0], [0, 0, 0]]" 1] n3
    by (auto split: prod.splits simp: numeral_2_eq_2)
  show ?thesis using a b c by simp
qed


end
